theory Spec2Isabelle
  imports Main "HOL-Library.Multiset"
begin

section \<open>Strings\<close>

text \<open>
  A JavaScript string is a sequence of code units; the model has the strings whose code units
  are below 256 (Latin-1), as lists of 8-bit characters. On these, \<open>toLowerCase\<close> maps
  \<open>A\<close>..\<open>Z\<close> and the capital letters \<open>0xC0\<close>..\<open>0xDE\<close> (but not the multiplication sign
  \<open>0xD7\<close>) to their small letters and leaves every other character alone; the white space
  of \<open>trim\<close> and of the class \<open>\s\<close> is tab, line feed, vertical tab, form feed, carriage
  return, space and the no-break space \<open>0xA0\<close>. Where the source only tests a value for
  being truthy (\<open>a || b\<close>, \<open>if (a)\<close>), an absent value (\<open>undefined\<close>, \<open>null\<close>) and the empty
  string behave alike, and both are the empty string here.
\<close>

definition latinCapitals :: string where
  "latinCapitals =
     [CHR 0xC0, CHR 0xC1, CHR 0xC2, CHR 0xC3, CHR 0xC4, CHR 0xC5, CHR 0xC6, CHR 0xC7,
      CHR 0xC8, CHR 0xC9, CHR 0xCA, CHR 0xCB, CHR 0xCC, CHR 0xCD, CHR 0xCE, CHR 0xCF,
      CHR 0xD0, CHR 0xD1, CHR 0xD2, CHR 0xD3, CHR 0xD4, CHR 0xD5, CHR 0xD6, CHR 0xD8,
      CHR 0xD9, CHR 0xDA, CHR 0xDB, CHR 0xDC, CHR 0xDD, CHR 0xDE]"

definition latinSmalls :: string where
  "latinSmalls =
     [CHR 0xE0, CHR 0xE1, CHR 0xE2, CHR 0xE3, CHR 0xE4, CHR 0xE5, CHR 0xE6, CHR 0xE7,
      CHR 0xE8, CHR 0xE9, CHR 0xEA, CHR 0xEB, CHR 0xEC, CHR 0xED, CHR 0xEE, CHR 0xEF,
      CHR 0xF0, CHR 0xF1, CHR 0xF2, CHR 0xF3, CHR 0xF4, CHR 0xF5, CHR 0xF6, CHR 0xF8,
      CHR 0xF9, CHR 0xFA, CHR 0xFB, CHR 0xFC, CHR 0xFD, CHR 0xFE]"

definition lowerChar :: "char \<Rightarrow> char" where
  "lowerChar c =
     (case map_of (zip (''ABCDEFGHIJKLMNOPQRSTUVWXYZ'' @ latinCapitals)
                       (''abcdefghijklmnopqrstuvwxyz'' @ latinSmalls)) c of
        Some d \<Rightarrow> d
      | None \<Rightarrow> c)"

definition toLowerCase :: "string \<Rightarrow> string" where
  "toLowerCase s = map lowerChar s"

definition isLowerAlnum :: "char \<Rightarrow> bool" where
  "isLowerAlnum c = (c \<in> set ''abcdefghijklmnopqrstuvwxyz0123456789'')"

definition isAlnum :: "char \<Rightarrow> bool" where
  "isAlnum c = (isLowerAlnum c \<or> c \<in> set ''ABCDEFGHIJKLMNOPQRSTUVWXYZ'')"

definition isSpace :: "char \<Rightarrow> bool" where
  "isSpace c = (c \<in> {CHR 0x09, CHR 0x0A, CHR 0x0B, CHR 0x0C, CHR 0x0D, CHR '' '', CHR 0xA0})"

definition trim :: "string \<Rightarrow> string" where
  "trim s = rev (dropWhile isSpace (rev (dropWhile isSpace s)))"

fun startsWith :: "string \<Rightarrow> string \<Rightarrow> bool" where
  "startsWith s [] = True"
| "startsWith [] (c # w) = False"
| "startsWith (a # s) (c # w) = (a = c \<and> startsWith s w)"

definition endsWith :: "string \<Rightarrow> string \<Rightarrow> bool" where
  "endsWith s w = startsWith (rev s) (rev w)"

fun str_includes :: "string \<Rightarrow> string \<Rightarrow> bool" where
  "str_includes [] w = (w = [])"
| "str_includes (a # s) w = (startsWith (a # s) w \<or> str_includes s w)"

text \<open>\<open>s.replace(/[^a-z0-9]/g, '_')\<close>\<close>

definition replaceNonLowerAlnum :: "string \<Rightarrow> string" where
  "replaceNonLowerAlnum s = map (\<lambda>c. if isLowerAlnum c then c else CHR ''_'') s"

text \<open>\<open>s.replace(/[^a-zA-Z0-9]/g, '_')\<close>\<close>

definition replaceNonAlnum :: "string \<Rightarrow> string" where
  "replaceNonAlnum s = map (\<lambda>c. if isAlnum c then c else CHR ''_'') s"

text \<open>JavaScript's \<open>a || b\<close> on strings: the first operand unless it is empty.\<close>

definition orElse :: "string \<Rightarrow> string \<Rightarrow> string" where
  "orElse a b = (if a \<noteq> [] then a else b)"

section \<open>Page inspector: the button safety flag\<close>

text \<open>
  From \<open>extractPageDataScript\<close>:
  \<^verbatim>\<open>
  const buttonText = (button.innerText || button.value || '').toLowerCase();
  const isSafeButton = !/(logout|log out|sign out|delete|remove)/i.test(buttonText);
  \<close>
  The fields of a DOM button that the script reads.
\<close>

record dom_button =
  innerText :: string
  bvalue :: string
  bid :: string
  bname :: string
  bariaLabel :: string
  bselector :: string
  bcontextHint :: string

definition dangerWords :: "string list" where
  "dangerWords = [''logout'', ''log out'', ''sign out'', ''delete'', ''remove'']"

definition buttonText :: "dom_button \<Rightarrow> string" where
  "buttonText b = toLowerCase (orElse (innerText b) (orElse (bvalue b) []))"

text \<open>
  The regular expression is an alternation of literal words under the flag \<open>i\<close>: it matches
  when one of the words occurs in the text, letter case ignored.
\<close>

definition dangerTest :: "string \<Rightarrow> bool" where
  "dangerTest s = list_ex (\<lambda>w. str_includes (toLowerCase s) w) dangerWords"

definition isSafeButton :: "dom_button \<Rightarrow> bool" where
  "isSafeButton b = (\<not> dangerTest (buttonText b))"

text \<open>The danger words as the specification lists them.\<close>

definition specDangerWords :: "string list" where
  "specDangerWords = [''logout'', ''sign out'', ''delete'', ''remove'']"

definition labelled :: "string \<Rightarrow> dom_button" where
  "labelled t = \<lparr>innerText = t, bvalue = [], bid = [], bname = [], bariaLabel = [],
     bselector = ''button'', bcontextHint = []\<rparr>"

section \<open>The platform: URL parsing, page loading\<close>

text \<open>
  The crawlers use the platform's \<open>URL\<close> class. It is not part of the repository, so it is
  a parameter of the model: \<open>parseURL\<close> is \<open>new URL(url)\<close>, \<open>resolveURL\<close> is
  \<open>new URL(url, base)\<close> (both \<open>None\<close> where the constructor throws a \<open>TypeError\<close>),
  \<open>serializeURL\<close> is \<open>toString()\<close>. The fields of a parsed URL that the code reads or
  assigns are the fields of the record. \<open>randomToken n\<close> is the \<open>n\<close>-th value of
  \<open>Math.random().toString(36).substring(2, 10)\<close> drawn in a run, and \<open>joinPath\<close> is
  \<open>path.join\<close> of Node.
\<close>

datatype js_error = TypeError string | Error string

fun message :: "js_error \<Rightarrow> string" where
  "message (TypeError m) = m"
| "message (Error m) = m"

record URL =
  protocol :: string
  hostname :: string
  pathname :: string
  search :: string
  hash :: string

record platform =
  parseURL :: "string \<Rightarrow> URL option"
  resolveURL :: "string \<Rightarrow> string \<Rightarrow> URL option"
  serializeURL :: "URL \<Rightarrow> string"
  randomToken :: "nat \<Rightarrow> string"
  joinPath :: "string \<Rightarrow> string \<Rightarrow> string"

text \<open>
  What the scripts injected into a loaded page read from its DOM: the anchors, the buttons
  (\<open>button\<close>, \<open>input[type=button]\<close>, \<open>input[type=submit]\<close>), the forms, the other inputs
  with the text areas, the selects and the images, each in document order. \<open>capture\<close> is the
  data URL that \<open>chrome.tabs.captureVisibleTab\<close> yields while the extension processes the
  tab (empty when it yields none or fails).
\<close>

record dom_anchor =
  href :: string
  anchorText :: string
  anchorTitle :: string
  anchorSelector :: string
  anchorContext :: string

text \<open>
  An element of the DOM with the attributes that the scripts read (\<open>etype\<close> is its lower-cased
  tag name, \<open>etext\<close> its inner text), and also the object by which the extraction script
  describes an interactive element to \<open>generateElementKeyword\<close>: there \<open>etype\<close> is the
  property \<open>type\<close>, which the script gives to every object it builds.
\<close>

record element =
  etype :: string
  ariaLabel :: string
  placeholder :: string
  alt :: string
  ename :: string
  eid :: string
  etitle :: string
  etext :: string
  contextHint :: string

record dom_form =
  formId :: string
  formAction :: string
  formMethod :: string

record dom =
  docTitle :: string
  docDescription :: string
  locationHref :: string
  locationPathname :: string
  anchors :: "dom_anchor list"
  domButtons :: "dom_button list"
  domForms :: "dom_form list"
  domInputs :: "element list"
  domSelects :: "element list"
  domImages :: "element list"
  capture :: string

section \<open>Configuration, graph and crawler state\<close>

text \<open>
  The configuration keys that the modelled code reads. \<open>exportGraph_flag\<close> is the key
  \<open>exportGraph\<close> of \<open>SiteCrawler\<close> (the method of that name is modelled below);
  \<open>captureButtonInteractions\<close> and \<open>includeScreenshots\<close> are read by the extension only,
  \<open>saveScreenshots\<close>, \<open>screenshotsDir\<close> and \<open>exportGraph_flag\<close> by \<open>SiteCrawler\<close> only.
\<close>

record config =
  maxDepth :: nat
  maxPages :: nat
  maxLinksPerPage :: nat
  ignoreParams :: bool
  followExternalLinks :: bool
  captureButtonInteractions :: bool
  saveScreenshots :: bool
  screenshotsDir :: string
  exportGraph_flag :: bool
  includeScreenshots :: bool

text \<open>
  A node of the site graph is an object; the record has the properties of it that the model
  follows, an absent property being the empty string, zero or false. Not followed are the
  time stamps (\<open>lastVisited\<close>, \<open>timestamp\<close>) and the heading list, which come from the
  clock and the page, the lists that the extension spreads into a node it updates, and the
  indexed properties that spreading a string or an array adds.
\<close>

record page_node =
  node_id :: string
  node_url :: string
  node_title :: string
  node_description :: string
  node_links :: nat
  node_forms :: nat
  node_buttons :: nat
  node_inputs :: nat
  node_screenshot :: string
  node_path :: string
  node_virtual :: bool
  node_parentUrl :: string
  node_actionText :: string
  node_actionSelector :: string

record edge =
  edge_from :: string
  edge_to :: string
  edge_type :: string
  edge_text :: string
  edge_selector :: string

record metadata =
  mtitle :: string
  mdescription :: string
  mlinks :: nat
  mforms :: nat
  mbuttons :: nat
  minputs :: nat
  mscreenshot :: string

record edge_meta =
  em_type :: string
  em_text :: string
  em_selector :: string

text \<open>
  The fields of the class \<open>SiteCrawler\<close>; \<open>siteGraph.nodes\<close> and \<open>siteGraph.edges\<close> are
  \<open>nodes\<close> and \<open>edges\<close>, the fields of \<open>stats\<close> are \<open>pagesVisited\<close>, \<open>linksFound\<close> and
  \<open>errors\<close>. Two fields are instrumentation and not in the source: \<open>navigated\<close> logs the
  URLs handed to the browser for loading, in order, and \<open>draws\<close> counts the random tokens
  drawn. \<open>browserSet\<close> says that \<open>this.browser\<close> of \<open>SiteCrawler\<close> holds a browser (the
  constructor sets it to \<open>null\<close>).

  \<open>siteGraph.nodes\<close> is a plain object used as a dictionary: \<open>nodes\<close> has its own
  properties, and \<open>nodesProto\<close> is its prototype when an assignment to the key \<open>__proto__\<close>
  has replaced \<open>Object.prototype\<close> by a node object (\<open>None\<close> before).
\<close>

record crawler =
  startUrl :: string
  config :: config
  baseHostname :: string
  nodes :: "string \<rightharpoonup> page_node"
  nodesProto :: "page_node option"
  edges :: "edge list"
  visitedUrls :: "string set"
  urlQueue :: "(string \<times> nat) list"
  pagesVisited :: nat
  linksFound :: nat
  errors :: "string list"
  navigated :: "string list"
  draws :: nat
  browserSet :: bool

section \<open>URL normalizer and filter (both crawlers)\<close>

text \<open>
  \<open>normalizeUrl\<close> and \<open>shouldCrawl\<close> are the same text in \<open>SiteCrawler\<close> and in
  \<open>SiteCrawlerExtension\<close>. Each is a \<open>try\<close> block and its \<open>catch\<close> handler; the block is
  modelled on its own, with the exception it may throw as the left summand.
\<close>

definition normalizeUrl_try :: "platform \<Rightarrow> config \<Rightarrow> string \<Rightarrow> string \<Rightarrow> js_error + string" where
  "normalizeUrl_try P cfg u base =
     (case resolveURL P u base of
        None \<Rightarrow> Inl (TypeError ''Invalid URL'')
      | Some absoluteUrl \<Rightarrow>
          (let a1 = absoluteUrl\<lparr>hash := []\<rparr>;
               a2 = (if ignoreParams cfg then a1\<lparr>search := []\<rparr> else a1)
           in Inr (serializeURL P a2)))"

definition normalizeUrl ::
  "platform \<Rightarrow> string \<Rightarrow> string \<Rightarrow> 'a crawler_scheme \<Rightarrow> js_error + (string option \<times> 'a crawler_scheme)" where
  "normalizeUrl P u base st =
     (case normalizeUrl_try P (config st) u base of
        Inr s \<Rightarrow> Inr (Some s, st)
      | Inl e \<Rightarrow>
          Inr (None, st\<lparr>errors := errors st @ [''Error normalizing URL '' @ u @ '': '' @ message e]\<rparr>))"

definition fileExtensions :: "string list" where
  "fileExtensions = [''.jpg'', ''.jpeg'', ''.png'', ''.gif'', ''.pdf'', ''.zip'',
                     ''.doc'', ''.docx'', ''.xls'', ''.xlsx'', ''.ppt'', ''.pptx'']"

definition shouldCrawl_try :: "platform \<Rightarrow> 'a crawler_scheme \<Rightarrow> string \<Rightarrow> js_error + bool" where
  "shouldCrawl_try P st u =
     (case parseURL P u of
        None \<Rightarrow> Inl (TypeError ''Invalid URL'')
      | Some parsedUrl \<Rightarrow>
          Inr (if \<not> startsWith (protocol parsedUrl) ''http'' then False
               else if \<not> followExternalLinks (config st) \<and> hostname parsedUrl \<noteq> baseHostname st
                 then False
               else if u \<in> visitedUrls st then False
               else if list_ex (\<lambda>ext. endsWith (toLowerCase (pathname parsedUrl)) ext) fileExtensions
                 then False
               else True))"

definition shouldCrawl ::
  "platform \<Rightarrow> string \<Rightarrow> 'a crawler_scheme \<Rightarrow> js_error + (bool \<times> 'a crawler_scheme)" where
  "shouldCrawl P u st =
     (case shouldCrawl_try P st u of
        Inr b \<Rightarrow> Inr (b, st)
      | Inl e \<Rightarrow>
          Inr (False, st\<lparr>errors := errors st @ [''Error checking URL '' @ u @ '': '' @ message e]\<rparr>))"

section \<open>Graph store of \<open>SiteCrawler\<close>\<close>

text \<open>
  \<open>getNodeId\<close> of \<open>SiteCrawler\<close> has no handler: a URL that does not parse makes it
  throw.
\<close>

definition getNodeId :: "platform \<Rightarrow> string \<Rightarrow> js_error + string" where
  "getNodeId P u =
     (case parseURL P u of
        None \<Rightarrow> Inl (TypeError ''Invalid URL'')
      | Some parsedUrl \<Rightarrow>
          (let path0 = pathname parsedUrl;
               path1 = (if endsWith path0 ''/'' \<and> path0 \<noteq> ''/'' then butlast path0 else path0);
               path2 = (if path1 = ''/'' then ''/home'' else path1);
               i = toLowerCase (replaceNonAlnum (drop 1 path2))
           in Inr (orElse i ''home'')))"

text \<open>
  The node store is a plain object, so a key that the store does not own is looked up in its
  prototype chain. These are the property names of \<open>Object.prototype\<close>; each but
  \<open>__proto__\<close> holds a function, and \<open>__proto__\<close> is the accessor of the prototype.
\<close>

definition objectPrototypeKeys :: "string list" where
  "objectPrototypeKeys =
     [''constructor'', ''__defineGetter__'', ''__defineSetter__'', ''hasOwnProperty'',
      ''__lookupGetter__'', ''__lookupSetter__'', ''isPrototypeOf'', ''propertyIsEnumerable'',
      ''toString'', ''valueOf'', ''__proto__'', ''toLocaleString'']"

text \<open>
  What \<open>this.siteGraph.nodes[id]\<close> yields, as far as \<open>addNode\<close> uses it: a node object (a
  property of the store, or under the key \<open>__proto__\<close> the prototype of the store); another
  value that the store inherits, with its truthiness (a function of \<open>Object.prototype\<close>, or
  a property of a node object that has become the prototype); or \<open>undefined\<close>.
\<close>

datatype found = NoValue | NodeValue page_node | OtherValue bool

text \<open>An object with none of the properties that the model follows.\<close>

definition bareNode :: page_node where
  "bareNode =
     \<lparr>node_id = [], node_url = [], node_title = [], node_description = [],
      node_links = 0, node_forms = 0, node_buttons = 0, node_inputs = 0,
      node_screenshot = [], node_path = [], node_virtual = False, node_parentUrl = [],
      node_actionText = [], node_actionSelector = []\<rparr>"

text \<open>
  \<open>props p k\<close> tells whether a node object \<open>p\<close> that has become the prototype has the
  property \<open>k\<close>, and whether its value is truthy; it depends on the crawler. Node ids have
  no capital letters, so the property names with capital letters are left out.
\<close>

definition lookupNode ::
  "(page_node \<Rightarrow> string \<Rightarrow> bool option) \<Rightarrow> 'a crawler_scheme \<Rightarrow> string \<Rightarrow> found" where
  "lookupNode props st i =
     (case nodes st i of
        Some n \<Rightarrow> NodeValue n
      | None \<Rightarrow>
          (if i = ''__proto__'' then
             NodeValue (case nodesProto st of Some p \<Rightarrow> p | None \<Rightarrow> bareNode)
           else
             (case (case nodesProto st of Some p \<Rightarrow> props p i | None \<Rightarrow> None) of
                Some truthy \<Rightarrow> OtherValue truthy
              | None \<Rightarrow> (if i \<in> set objectPrototypeKeys then OtherValue True else NoValue))))"

text \<open>
  The assignment \<open>this.siteGraph.nodes[id] = node\<close>: under the key \<open>__proto__\<close> it calls the
  accessor, which makes the node object the prototype of the store and adds no property.
\<close>

definition storeNode :: "string \<Rightarrow> page_node \<Rightarrow> 'a crawler_scheme \<Rightarrow> 'a crawler_scheme" where
  "storeNode i n st =
     (if i = ''__proto__'' then st\<lparr>nodesProto := Some n\<rparr>
      else st\<lparr>nodes := (nodes st)(i \<mapsto> n)\<rparr>)"

text \<open>
  The properties of a prototype object in \<open>SiteCrawler\<close>: it is a copy of the metadata of
  a page.
\<close>

definition siteProps :: "page_node \<Rightarrow> string \<Rightarrow> bool option" where
  "siteProps p k =
     map_of [(''title'', node_title p \<noteq> []), (''description'', node_description p \<noteq> []),
             (''headings'', True), (''links'', node_links p \<noteq> 0), (''forms'', node_forms p \<noteq> 0),
             (''buttons'', node_buttons p \<noteq> 0), (''inputs'', node_inputs p \<noteq> 0),
             (''screenshot'', node_screenshot p \<noteq> [])] k"

text \<open>
  The two branches of \<open>addNode\<close>: the node built from the metadata, and
  \<open>{ ...this.siteGraph.nodes[id], ...metadata, lastVisited }\<close>.
\<close>

definition newNode :: "string \<Rightarrow> string \<Rightarrow> metadata \<Rightarrow> page_node" where
  "newNode i u m =
     \<lparr>node_id = i, node_url = u, node_title = mtitle m, node_description = mdescription m,
      node_links = mlinks m, node_forms = mforms m, node_buttons = mbuttons m,
      node_inputs = minputs m, node_screenshot = mscreenshot m, node_path = [],
      node_virtual = False, node_parentUrl = [],
      node_actionText = [], node_actionSelector = []\<rparr>"

definition mergeNode :: "page_node \<Rightarrow> metadata \<Rightarrow> page_node" where
  "mergeNode n m =
     n\<lparr>node_title := mtitle m, node_description := mdescription m, node_links := mlinks m,
       node_forms := mforms m, node_buttons := mbuttons m, node_inputs := minputs m,
       node_screenshot := mscreenshot m\<rparr>"

definition putNode :: "string \<Rightarrow> string \<Rightarrow> metadata \<Rightarrow> 'a crawler_scheme \<Rightarrow> 'a crawler_scheme" where
  "putNode i u m st =
     (case lookupNode siteProps st i of
        NoValue \<Rightarrow> storeNode i (newNode i u m) st
      | NodeValue n \<Rightarrow> storeNode i (mergeNode n m) st
      | OtherValue truthy \<Rightarrow>
          (if truthy then storeNode i (mergeNode bareNode m) st
           else storeNode i (newNode i u m) st))"

definition addNode :: "platform \<Rightarrow> string \<Rightarrow> metadata \<Rightarrow> crawler \<Rightarrow> js_error + (string \<times> crawler)" where
  "addNode P u m st =
     (case getNodeId P u of
        Inl e \<Rightarrow> Inl e
      | Inr i \<Rightarrow> Inr (i, putNode i u m st))"

definition mkEdge :: "string \<Rightarrow> string \<Rightarrow> edge_meta \<Rightarrow> edge" where
  "mkEdge fromId toId m =
     \<lparr>edge_from = fromId, edge_to = toId, edge_type = orElse (em_type m) ''link'',
      edge_text = orElse (em_text m) [], edge_selector = orElse (em_selector m) []\<rparr>"

definition addEdge :: "platform \<Rightarrow> string \<Rightarrow> string \<Rightarrow> edge_meta \<Rightarrow> crawler \<Rightarrow> js_error + crawler" where
  "addEdge P fromUrl toUrl m st =
     (case getNodeId P fromUrl of
        Inl e \<Rightarrow> Inl e
      | Inr fromId \<Rightarrow>
          (case getNodeId P toUrl of
             Inl e \<Rightarrow> Inl e
           | Inr toId \<Rightarrow> Inr (st\<lparr>edges := edges st @ [mkEdge fromId toId m]\<rparr>)))"

section \<open>Page visits of \<open>SiteCrawler\<close>\<close>

text \<open>
  What the browser gives back for a navigation. \<open>NavFails\<close> stands for an exception from
  \<open>newPage\<close>, \<open>setUserAgent\<close>, \<open>setViewport\<close> or \<open>goto\<close> (a timeout among them). A loaded
  page has its DOM; each later call on the page handle may throw, with the message given.
\<close>

record page_handle =
  pageDom :: dom
  metadataError :: "string option"
  screenshotError :: "string option"
  linksError :: "string option"
  closeError :: "string option"

datatype nav_outcome = NavFails string | NavOk page_handle

type_synonym browser = "nat \<Rightarrow> string \<Rightarrow> nav_outcome"

datatype link_item = Link string string string | ButtonItem string string

definition emptyMetadata :: metadata where
  "emptyMetadata =
     \<lparr>mtitle = [], mdescription = [], mlinks = 0, mforms = 0, mbuttons = 0, minputs = 0,
      mscreenshot = []\<rparr>"

definition domMetadata :: "dom \<Rightarrow> metadata" where
  "domMetadata d =
     \<lparr>mtitle = docTitle d, mdescription = docDescription d, mlinks = length (anchors d),
      mforms = length (domForms d), mbuttons = length (domButtons d),
      minputs = length (domInputs d) + length (domSelects d), mscreenshot = []\<rparr>"

text \<open>
  \<open>extractPageMetadata\<close>: the script, then the screenshot when \<open>saveScreenshots\<close> is set
  (its file name is the node id of the URL), with the handler that logs the error and
  returns empty metadata.
\<close>

definition extractPageMetadata_try ::
  "platform \<Rightarrow> page_handle \<Rightarrow> string \<Rightarrow> config \<Rightarrow> js_error + metadata" where
  "extractPageMetadata_try P page u cfg =
     (case metadataError page of
        Some msg \<Rightarrow> Inl (Error msg)
      | None \<Rightarrow>
          (if saveScreenshots cfg then
             (case getNodeId P u of
                Inl e \<Rightarrow> Inl e
              | Inr i \<Rightarrow>
                  (case screenshotError page of
                     Some msg \<Rightarrow> Inl (Error msg)
                   | None \<Rightarrow>
                       Inr ((domMetadata (pageDom page))
                              \<lparr>mscreenshot := joinPath P (screenshotsDir cfg) (i @ ''.png'')\<rparr>)))
           else Inr (domMetadata (pageDom page))))"

definition extractPageMetadata ::
  "platform \<Rightarrow> page_handle \<Rightarrow> string \<Rightarrow> crawler \<Rightarrow> metadata \<times> crawler" where
  "extractPageMetadata P page u st =
     (case extractPageMetadata_try P page u (config st) of
        Inr m \<Rightarrow> (m, st)
      | Inl e \<Rightarrow>
          (emptyMetadata,
           st\<lparr>errors := errors st @ [''Error extracting metadata from '' @ u @ '': '' @ message e]\<rparr>))"

text \<open>
  The script of \<open>extractLinks\<close>: the first \<open>maxLinks\<close> anchors, those with an \<open>href\<close>, then
  every button.
\<close>

definition linkOfAnchor :: "dom_anchor \<Rightarrow> link_item" where
  "linkOfAnchor a = Link (href a) (orElse (trim (anchorText a)) (orElse (anchorTitle a) [])) (anchorSelector a)"

definition itemOfButton :: "dom_button \<Rightarrow> link_item" where
  "itemOfButton b =
     ButtonItem (orElse (innerText b) (orElse (bvalue b) (orElse (bid b) ''Button''))) (bselector b)"

definition linksScript :: "nat \<Rightarrow> dom \<Rightarrow> link_item list" where
  "linksScript maxLinks d =
     map linkOfAnchor (filter (\<lambda>a. href a \<noteq> []) (take maxLinks (anchors d)))
     @ map itemOfButton (domButtons d)"

definition extractLinks :: "page_handle \<Rightarrow> string \<Rightarrow> crawler \<Rightarrow> link_item list \<times> crawler" where
  "extractLinks page currentUrl st =
     (case linksError page of
        None \<Rightarrow> (linksScript (maxLinksPerPage (config st)) (pageDom page), st)
      | Some msg \<Rightarrow>
          ([], st\<lparr>errors := errors st @ [''Error extracting links from '' @ currentUrl @ '': '' @ msg]\<rparr>))"

definition virtualNode :: "string \<Rightarrow> string \<Rightarrow> string \<Rightarrow> string \<Rightarrow> string \<Rightarrow> page_node" where
  "virtualNode buttonNodeId u pageTitle t sel =
     \<lparr>node_id = buttonNodeId, node_url = u @ ''#action-'' @ t,
      node_title = ''After '' @ t @ '' on '' @ pageTitle, node_description = [],
      node_links = 0, node_forms = 0, node_buttons = 0, node_inputs = 0,
      node_screenshot = [], node_path = [], node_virtual = True, node_parentUrl = u, node_actionText = t, node_actionSelector = sel\<rparr>"

definition addButtonState ::
  "string \<Rightarrow> string \<Rightarrow> string \<Rightarrow> string \<Rightarrow> string \<Rightarrow> 'a crawler_scheme \<Rightarrow> 'a crawler_scheme" where
  "addButtonState nodeId u pageTitle t sel st =
     (let buttonNodeId = nodeId @ ''_button_'' @ replaceNonLowerAlnum (toLowerCase t)
      in (storeNode buttonNodeId (virtualNode buttonNodeId u pageTitle t sel) st)
           \<lparr>edges := edges st @ [\<lparr>edge_from = nodeId, edge_to = buttonNodeId, edge_type = ''button'',
                                  edge_text = t, edge_selector = sel\<rparr>]\<rparr>)"

text \<open>
  One round of the loop over the links of a page in \<open>crawlPage\<close>. The second component is
  the exception that leaves the loop, if any; the state reached by then stays.
\<close>

definition processLink ::
  "platform \<Rightarrow> string \<Rightarrow> nat \<Rightarrow> string \<Rightarrow> string \<Rightarrow> link_item \<Rightarrow> crawler \<Rightarrow> crawler \<times> js_error option" where
  "processLink P u depth nodeId pageTitle l st =
     (case l of
        Link lurl ltext lsel \<Rightarrow>
          (if lurl \<noteq> [] then
             (case normalizeUrl P lurl u st of
                Inl e \<Rightarrow> (st, Some e)
              | Inr (None, st1) \<Rightarrow> (st1, None)
              | Inr (Some normalizedUrl, st1) \<Rightarrow>
                  (if normalizedUrl = [] then (st1, None)
                   else
                     (case shouldCrawl P normalizedUrl st1 of
                        Inl e \<Rightarrow> (st1, Some e)
                      | Inr (False, st2) \<Rightarrow> (st2, None)
                      | Inr (True, st2) \<Rightarrow>
                          (case addEdge P u normalizedUrl
                                  \<lparr>em_type = ''link'', em_text = ltext, em_selector = lsel\<rparr> st2 of
                             Inl e \<Rightarrow> (st2, Some e)
                           | Inr st3 \<Rightarrow>
                               (st3\<lparr>urlQueue := urlQueue st3 @ [(normalizedUrl, depth + 1)]\<rparr>, None)))))
           else (st, None))
      | ButtonItem btext bsel \<Rightarrow> (addButtonState nodeId u pageTitle btext bsel st, None))"

fun processLinks ::
  "platform \<Rightarrow> string \<Rightarrow> nat \<Rightarrow> string \<Rightarrow> string \<Rightarrow> link_item list \<Rightarrow> crawler \<Rightarrow> crawler \<times> js_error option" where
  "processLinks P u depth nodeId pageTitle [] st = (st, None)"
| "processLinks P u depth nodeId pageTitle (l # ls) st =
     (case processLink P u depth nodeId pageTitle l st of
        (st1, Some e) \<Rightarrow> (st1, Some e)
      | (st1, None) \<Rightarrow> processLinks P u depth nodeId pageTitle ls st1)"

text \<open>The \<open>try\<close> block of \<open>crawlPage\<close>, entered after the URL has been marked visited.\<close>

definition crawlPage_try ::
  "platform \<Rightarrow> browser \<Rightarrow> string \<Rightarrow> nat \<Rightarrow> crawler \<Rightarrow> crawler \<times> js_error option" where
  "crawlPage_try P B u depth st =
     (let st0 = st\<lparr>navigated := navigated st @ [u]\<rparr> in
      case B (length (navigated st)) u of
        NavFails msg \<Rightarrow> (st0, Some (Error msg))
      | NavOk page \<Rightarrow>
          (case extractPageMetadata P page u st0 of
             (m, st1) \<Rightarrow>
               (case addNode P u m st1 of
                  Inl e \<Rightarrow> (st1, Some e)
                | Inr (nodeId, st2) \<Rightarrow>
                    (case extractLinks page u st2 of
                       (links, st3) \<Rightarrow>
                         (case processLinks P u depth nodeId (mtitle m) links
                                 (st3\<lparr>linksFound := linksFound st3 + length links\<rparr>) of
                            (st4, Some e) \<Rightarrow> (st4, Some e)
                          | (st4, None) \<Rightarrow>
                              (st4\<lparr>pagesVisited := pagesVisited st4 + 1\<rparr>,
                               map_option Error (closeError page)))))))"

text \<open>
  \<open>crawlPage\<close>. An exception that leaves it comes with the state in which it was thrown (the
  left summand); the state on return is the right summand.
\<close>

definition crawlPage ::
  "platform \<Rightarrow> browser \<Rightarrow> string \<Rightarrow> nat \<Rightarrow> crawler \<Rightarrow> (js_error \<times> crawler) + crawler" where
  "crawlPage P B u depth st =
     (case shouldCrawl P u st of
        Inl e \<Rightarrow> Inl (e, st)
      | Inr (ok, st1) \<Rightarrow>
          (if \<not> ok \<or> depth > maxDepth (config st1) \<or> pagesVisited st1 \<ge> maxPages (config st1)
           then Inr st1
           else
             (case crawlPage_try P B u depth (st1\<lparr>visitedUrls := insert u (visitedUrls st1)\<rparr>) of
                (st2, None) \<Rightarrow> Inr st2
              | (st2, Some e) \<Rightarrow>
                  Inr (st2\<lparr>errors := errors st2 @ [''Error crawling '' @ u @ '': '' @ message e]\<rparr>))))"

text \<open>
  The scheduler of \<open>crawl\<close>:
  \<^verbatim>\<open>
  this.urlQueue.push({ url: this.startUrl, depth: 0 });
  while (this.urlQueue.length > 0 && this.stats.pagesVisited < this.config.maxPages) {
    const { url, depth } = this.urlQueue.shift();
    await this.crawlPage(url, depth);
  }
  \<close>
  The loop is a partial function: \<open>None\<close> is a run that never leaves the loop,
  \<open>Some (Inl (e, s))\<close> a run that leaves it by the exception \<open>e\<close> in the state \<open>s\<close>.
\<close>

definition running :: "crawler \<Rightarrow> bool" where
  "running st \<longleftrightarrow> urlQueue st \<noteq> [] \<and> pagesVisited st < maxPages (config st)"

definition crawlStep :: "platform \<Rightarrow> browser \<Rightarrow> crawler \<Rightarrow> (js_error \<times> crawler) + crawler" where
  "crawlStep P B st =
     (case urlQueue st of
        [] \<Rightarrow> Inr st
      | entry # rest \<Rightarrow> crawlPage P B (fst entry) (snd entry) (st\<lparr>urlQueue := rest\<rparr>))"

partial_function (option) crawlLoop ::
  "platform \<Rightarrow> browser \<Rightarrow> crawler \<Rightarrow> ((js_error \<times> crawler) + crawler) option" where
  "crawlLoop P B st =
     (if running st then
        (case crawlStep P B st of
           Inl e \<Rightarrow> Some (Inl e)
         | Inr st1 \<Rightarrow> crawlLoop P B st1)
      else Some (Inr st))"

text \<open>
  The state at the head of the loop after \<open>n\<close> rounds (the final state, when the loop has
  ended before): the scheduler states a run goes through.
\<close>

fun crawlSteps :: "nat \<Rightarrow> platform \<Rightarrow> browser \<Rightarrow> crawler \<Rightarrow> (js_error \<times> crawler) + crawler" where
  "crawlSteps 0 P B st = Inr st"
| "crawlSteps (Suc n) P B st =
     (if running st then
        (case crawlStep P B st of
           Inl e \<Rightarrow> Inl e
         | Inr st1 \<Rightarrow> crawlSteps n P B st1)
      else Inr st)"

definition newSiteCrawler :: "platform \<Rightarrow> string \<Rightarrow> config \<Rightarrow> js_error + crawler" where
  "newSiteCrawler P start cfg =
     (case parseURL P start of
        None \<Rightarrow> Inl (TypeError ''Invalid URL'')
      | Some parsedUrl \<Rightarrow>
          Inr \<lparr>startUrl = start, config = cfg, baseHostname = hostname parsedUrl,
               nodes = Map.empty, nodesProto = None, edges = [], visitedUrls = {}, urlQueue = [],
               pagesVisited = 0, linksFound = 0, errors = [], navigated = [], draws = 0,
               browserSet = False\<rparr>)"

text \<open>
  What \<open>crawl\<close> returns: \<open>{ graph: this.siteGraph, stats: this.stats }\<close> (the two time
  stamps of \<open>stats\<close> come from the clock and are left out).
\<close>

record crawl_result =
  graphNodes :: "string \<rightharpoonup> page_node"
  graphProto :: "page_node option"
  graphEdges :: "edge list"
  statsPagesVisited :: nat
  statsLinksFound :: nat
  statsErrors :: "string list"

definition resultOf :: "'a crawler_scheme \<Rightarrow> crawl_result" where
  "resultOf st =
     \<lparr>graphNodes = nodes st, graphProto = nodesProto st, graphEdges = edges st,
      statsPagesVisited = pagesVisited st,
      statsLinksFound = linksFound st, statsErrors = errors st\<rparr>"

text \<open>
  \<open>crawl\<close> awaits four calls of the host around the loop: \<open>fs.mkdir\<close> (once or twice),
  \<open>puppeteer.launch\<close>, \<open>fs.writeFile\<close> in \<open>exportGraph\<close>, and \<open>browser.close\<close>, the
  latter once more in the \<open>catch\<close> handler. Each returns or throws; the record says which,
  with the message of the error thrown.
\<close>

record host =
  mkdirOutput :: "string option"
  mkdirScreenshots :: "string option"
  launch :: "string option"
  writeFile :: "string option"
  closeBrowser :: "string option"
  closeInHandler :: "string option"

text \<open>
  \<^verbatim>\<open>
  await fs.mkdir(this.config.outputDir, { recursive: true });
  if (this.config.saveScreenshots) {
    await fs.mkdir(this.config.screenshotsDir, { recursive: true });
  }
  \<close>
\<close>

definition createOutputDirs :: "host \<Rightarrow> config \<Rightarrow> js_error option" where
  "createOutputDirs H cfg =
     (case mkdirOutput H of
        Some msg \<Rightarrow> Some (Error msg)
      | None \<Rightarrow> (if saveScreenshots cfg then map_option Error (mkdirScreenshots H) else None))"

text \<open>
  The method \<open>exportGraph\<close>: it writes the graph, the statistics and the configuration to
  the file; when the write fails it logs the error and throws it again.
\<close>

definition exportGraph :: "host \<Rightarrow> crawler \<Rightarrow> crawler \<times> js_error option" where
  "exportGraph H st =
     (case writeFile H of
        None \<Rightarrow> (st, None)
      | Some msg \<Rightarrow> (st\<lparr>errors := errors st @ [''Error exporting graph: '' @ msg]\<rparr>, Some (Error msg)))"

text \<open>
  The \<open>try\<close> block of \<open>crawl\<close>: the state in which it ends, and the value returned or the
  exception thrown.
\<close>

definition crawl_try ::
  "host \<Rightarrow> platform \<Rightarrow> browser \<Rightarrow> crawler \<Rightarrow> (crawler \<times> (js_error + crawl_result)) option" where
  "crawl_try H P B st =
     (case createOutputDirs H (config st) of
        Some e \<Rightarrow> Some (st, Inl e)
      | None \<Rightarrow>
          (case launch H of
             Some msg \<Rightarrow> Some (st, Inl (Error msg))
           | None \<Rightarrow>
               (case crawlLoop P B
                       (st\<lparr>browserSet := True, urlQueue := urlQueue st @ [(startUrl st, 0)]\<rparr>) of
                  None \<Rightarrow> None
                | Some (Inl (e, s)) \<Rightarrow> Some (s, Inl e)
                | Some (Inr s) \<Rightarrow>
                    (case (if exportGraph_flag (config s) then exportGraph H s else (s, None)) of
                       (s1, Some e) \<Rightarrow> Some (s1, Inl e)
                     | (s1, None) \<Rightarrow>
                         (case closeBrowser H of
                            Some msg \<Rightarrow> Some (s1, Inl (Error msg))
                          | None \<Rightarrow> Some (s1, Inr (resultOf s1)))))))"

text \<open>
  \<open>crawl\<close> with its handler:
  \<^verbatim>\<open>
  } catch (error) {
    this.stats.errors.push(`Error during crawl: ${error.message}`);
    if (this.browser) { await this.browser.close(); }
    throw error;
  }
  \<close>
  \<open>None\<close> is a run that never ends; otherwise the state of the crawler when \<open>crawl\<close> ends
  comes with the value returned (right) or the exception thrown (left).
\<close>

definition crawl ::
  "host \<Rightarrow> platform \<Rightarrow> browser \<Rightarrow> crawler \<Rightarrow> (crawler \<times> (js_error + crawl_result)) option" where
  "crawl H P B st =
     (case crawl_try H P B st of
        None \<Rightarrow> None
      | Some (s, Inr r) \<Rightarrow> Some (s, Inr r)
      | Some (s, Inl e) \<Rightarrow>
          (let s1 = s\<lparr>errors := errors s @ [''Error during crawl: '' @ message e]\<rparr>
           in if browserSet s1 then
                (case closeInHandler H of
                   Some msg \<Rightarrow> Some (s1, Inl (Error msg))
                 | None \<Rightarrow> Some (s1, Inl e))
              else Some (s1, Inl e)))"

section \<open>Keyword generation\<close>

text \<open>
  \<open>generateElementKeyword\<close> of \<open>SiteCrawlerExtension\<close> (the function \<open>generateKeyword\<close> of
  the content script is its first half). \<open>rnd\<close> is the random token the last branch draws.
\<close>

record element_keywords =
  primary :: string
  ktype :: string
  fullKeyword :: string

definition actionWords :: "string list" where
  "actionWords = [''create'', ''add'', ''edit'', ''update'', ''delete'', ''remove'', ''submit'',
                  ''save'', ''cancel'', ''close'', ''open'', ''search'', ''filter'', ''select'',
                  ''upload'', ''download'', ''validate'', ''verify'', ''run'', ''execute'', ''apply'']"

definition chosenKeyword :: "string \<Rightarrow> element \<Rightarrow> string" where
  "chosenKeyword rnd el =
     (if ariaLabel el \<noteq> [] then ariaLabel el
      else if placeholder el \<noteq> [] then placeholder el
      else if alt el \<noteq> [] then alt el
      else if ename el \<noteq> [] then ename el
      else if eid el \<noteq> [] then eid el
      else if etext el \<noteq> [] \<and> trim (etext el) \<noteq> [] then trim (etext el)
      else etype el @ ''_'' @ rnd)"

definition generateElementKeyword :: "string \<Rightarrow> element \<Rightarrow> element_keywords" where
  "generateElementKeyword rnd el =
     (let keyword = chosenKeyword rnd el;
          actionHint = find (\<lambda>action. str_includes (toLowerCase keyword) action) actionWords;
          type1 = (case actionHint of Some action \<Rightarrow> action @ ''_'' @ etype el | None \<Rightarrow> etype el);
          type2 = (if contextHint el \<noteq> [] then type1 @ ''_in_'' @ contextHint el else type1);
          cleaned = take 50 (replaceNonLowerAlnum (toLowerCase keyword))
      in \<lparr>primary = cleaned, ktype = type2, fullKeyword = take 60 (type2 @ ''_'' @ cleaned)\<rparr>)"

definition usesRandom :: "element \<Rightarrow> bool" where
  "usesRandom el \<longleftrightarrow>
     ariaLabel el = [] \<and> placeholder el = [] \<and> alt el = [] \<and> ename el = [] \<and> eid el = []
     \<and> \<not> (etext el \<noteq> [] \<and> trim (etext el) \<noteq> [])"

text \<open>\<open>getKeyword\<close> of the corporate crawler: seven attributes, no normalization.\<close>

definition getKeyword :: "element \<Rightarrow> string" where
  "getKeyword el =
     (if ariaLabel el \<noteq> [] then ariaLabel el
      else if placeholder el \<noteq> [] then placeholder el
      else if alt el \<noteq> [] then alt el
      else if ename el \<noteq> [] then ename el
      else if eid el \<noteq> [] then eid el
      else if etitle el \<noteq> [] then etitle el
      else if etext el \<noteq> [] \<and> trim (etext el) \<noteq> [] then trim (etext el)
      else ''Unknown'')"



subsection \<open>The page annotation pass with its keyword set\<close>

text \<open>
  The script that annotates every element of a page with a \<open>data-keyword\<close>:
  \<^verbatim>\<open>
  const keywordSet = new Set();
  function generateKeyword(el) {
    const raw = (aria-label || placeholder || alt || name || id || title || innerText || '')
      .toLowerCase().trim().replace(/\s+/g, ' ').replace(/[^a-z0-9 ]/gi, '');
    let keyword = raw || `${el.tagName.toLowerCase()}-${Math.random().toString(36).substr(2, 5)}`;
    let uniqueKeyword = keyword;
    let count = 1;
    while (keywordSet.has(uniqueKeyword)) { uniqueKeyword = `${keyword}-${count++}`; }
    keywordSet.add(uniqueKeyword);
    return uniqueKeyword;
  }
  \<close>
  The set is a list here (a JavaScript \<open>Set\<close> keeps insertion order); the \<open>while\<close> loop is a
  partial function.
\<close>

definition digitChar :: "nat \<Rightarrow> char" where
  "digitChar n = ''0123456789'' ! n"

fun showNat :: "nat \<Rightarrow> string" where
  "showNat n = (if n < 10 then [digitChar n] else showNat (n div 10) @ [digitChar (n mod 10)])"

declare showNat.simps [simp del]

text \<open>\<open>s.replace(/\s+/g, ' ')\<close>: every run of white space becomes one space.\<close>

fun collapseSpaces :: "string \<Rightarrow> string" where
  "collapseSpaces [] = []"
| "collapseSpaces [c] = [if isSpace c then CHR '' '' else c]"
| "collapseSpaces (c # d # s) =
     (if isSpace c then
        (if isSpace d then collapseSpaces (d # s) else CHR '' '' # collapseSpaces (d # s))
      else c # collapseSpaces (d # s))"

definition rawKeyword :: "element \<Rightarrow> string" where
  "rawKeyword el =
     (let attr = orElse (ariaLabel el) (orElse (placeholder el) (orElse (alt el)
                   (orElse (ename el) (orElse (eid el) (orElse (etitle el)
                      (orElse (etext el) []))))))
      in filter (\<lambda>c. isAlnum c \<or> c = CHR '' '') (collapseSpaces (trim (toLowerCase attr))))"

definition baseKeyword :: "string \<Rightarrow> element \<Rightarrow> string" where
  "baseKeyword rnd el = orElse (rawKeyword el) (etype el @ ''-'' @ rnd)"

partial_function (option) uniqueLoop :: "string list \<Rightarrow> string \<Rightarrow> string \<Rightarrow> nat \<Rightarrow> string option" where
  "uniqueLoop keywordSet keyword uniqueKeyword counter =
     (if uniqueKeyword \<in> set keywordSet
      then uniqueLoop keywordSet keyword (keyword @ ''-'' @ showNat counter) (counter + 1)
      else Some uniqueKeyword)"

text \<open>
  The second half of \<open>generateKeyword\<close>, from the keyword on: the unique keyword and the set
  with it added.
\<close>

definition makeUnique :: "string list \<Rightarrow> string \<Rightarrow> (string \<times> string list) option" where
  "makeUnique keywordSet keyword =
     map_option (\<lambda>uniqueKeyword. (uniqueKeyword, keywordSet @ [uniqueKeyword]))
       (uniqueLoop keywordSet keyword keyword 1)"

text \<open>
  The pass over the elements of one page, in document order, from a given keyword set; the
  list holds the keyword of each element before it is made unique.
\<close>

fun annotate :: "string list \<Rightarrow> string list \<Rightarrow> string list option" where
  "annotate keywordSet [] = Some []"
| "annotate keywordSet (keyword # rest) =
     (case makeUnique keywordSet keyword of
        None \<Rightarrow> None
      | Some (uniqueKeyword, keywordSet1) \<Rightarrow>
          map_option (\<lambda>us. uniqueKeyword # us) (annotate keywordSet1 rest))"

text \<open>
  One page: a fresh set, the \<open>i\<close>-th element drawing the token \<open>tokens i\<close> when it has no
  raw keyword.
\<close>

definition pageKeywords :: "(nat \<Rightarrow> string) \<Rightarrow> element list \<Rightarrow> string list option" where
  "pageKeywords tokens els =
     annotate [] (map (\<lambda>i. baseKeyword (tokens i) (els ! i)) [0..<length els])"

text \<open>
  The numbering the specification describes: the first occurrence of a keyword unchanged,
  the occurrence after \<open>j\<close> earlier ones with the suffix \<open>-j\<close>.
\<close>

definition candidate :: "string \<Rightarrow> nat \<Rightarrow> string" where
  "candidate keyword j = (if j = 0 then keyword else keyword @ ''-'' @ showNat j)"

fun numberedFrom :: "string list \<Rightarrow> string list \<Rightarrow> string list" where
  "numberedFrom seen [] = []"
| "numberedFrom seen (keyword # rest) =
     candidate keyword (count_list seen keyword) # numberedFrom (seen @ [keyword]) rest"

definition numbered :: "string list \<Rightarrow> string list" where
  "numbered ks = numberedFrom [] ks"

section \<open>\<open>SiteCrawlerExtension\<close>: page data\<close>

text \<open>What \<open>extractPageDataScript\<close> returns for a loaded page.\<close>

record extracted_link =
  xl_url :: string
  xl_text :: string
  xl_selector :: string
  xl_context :: string

record extracted_button =
  xb_text :: string
  xb_selector :: string
  xb_ariaLabel :: string
  xb_id :: string
  xb_name :: string
  xb_isSafeButton :: bool
  xb_context :: string

record page_data =
  pd_meta :: metadata
  pd_url :: string
  pd_path :: string
  extractedLinks :: "extracted_link list"
  extractedButtons :: "extracted_button list"
  extractedForms :: "dom_form list"
  pd_interactiveElements :: "element list"

definition extractLink :: "dom_anchor \<Rightarrow> extracted_link" where
  "extractLink a =
     \<lparr>xl_url = href a, xl_text = orElse (trim (anchorText a)) (orElse (anchorTitle a) []),
      xl_selector = anchorSelector a, xl_context = anchorContext a\<rparr>"

definition extractButton :: "dom_button \<Rightarrow> extracted_button" where
  "extractButton b =
     \<lparr>xb_text = orElse (innerText b) (orElse (bvalue b) (orElse (bid b) ''Button'')),
      xb_selector = bselector b, xb_ariaLabel = orElse (bariaLabel b) [],
      xb_id = orElse (bid b) [], xb_name = orElse (bname b) [],
      xb_isSafeButton = isSafeButton b, xb_context = bcontextHint b\<rparr>"

text \<open>
  The objects that the script builds for the inputs and text areas, the selects and the
  images: each copies some of the attributes.
  \<^verbatim>\<open>
  { type: input.tagName.toLowerCase(), inputType: ..., placeholder: ..., ariaLabel: ...,
    name: input.name || '', id: input.id || '', required: ..., selector: ..., label: ...,
    contextHint: findContainerContext(input) }
  { type: 'select', ariaLabel: ..., name: ..., id: ..., options: ..., selector: ..., label: ...,
    contextHint: ... }
  { type: 'img', src: ..., alt: img.getAttribute('alt') || '', selector: ..., contextHint: ... }
  \<close>
\<close>

definition inputObject :: "element \<Rightarrow> element" where
  "inputObject e =
     \<lparr>etype = etype e, ariaLabel = ariaLabel e, placeholder = placeholder e, alt = [],
      ename = ename e, eid = eid e, etitle = [], etext = [], contextHint = contextHint e\<rparr>"

definition selectObject :: "element \<Rightarrow> element" where
  "selectObject e =
     \<lparr>etype = ''select'', ariaLabel = ariaLabel e, placeholder = [], alt = [],
      ename = ename e, eid = eid e, etitle = [], etext = [], contextHint = contextHint e\<rparr>"

definition imageObject :: "element \<Rightarrow> element" where
  "imageObject e =
     \<lparr>etype = ''img'', ariaLabel = [], placeholder = [], alt = alt e,
      ename = [], eid = [], etitle = [], etext = [], contextHint = contextHint e\<rparr>"

definition extractPageDataScript :: "dom \<Rightarrow> page_data" where
  "extractPageDataScript d =
     \<lparr>pd_meta = domMetadata d, pd_url = locationHref d, pd_path = locationPathname d,
      extractedLinks = map extractLink (filter (\<lambda>a. href a \<noteq> []) (anchors d)),
      extractedButtons = map extractButton (domButtons d),
      extractedForms = domForms d,
      pd_interactiveElements =
        map inputObject (domInputs d) @ map selectObject (domSelects d)
        @ map imageObject (domImages d)\<rparr>"

text \<open>
  In \<open>processLoadedPage\<close>, when \<open>includeScreenshots\<close> is set and the capture of the tab
  yields a data URL, it becomes the property \<open>screenshot\<close> of the page data.
\<close>

definition withScreenshot :: "config \<Rightarrow> dom \<Rightarrow> page_data \<Rightarrow> page_data" where
  "withScreenshot cfg d pd =
     (if includeScreenshots cfg \<and> capture d \<noteq> []
      then pd\<lparr>pd_meta := (pd_meta pd)\<lparr>mscreenshot := capture d\<rparr>\<rparr> else pd)"

text \<open>
  \<open>processPageData\<close> calls \<open>this.inferPageType\<close> and \<open>this.inferFormType\<close>. No source file
  of the repository defines them, so they are parameters: functions that return a string or
  throw. With the class as it stands every call throws a \<open>TypeError\<close>; that is the instance
  \<open>undefinedMethods\<close>.
\<close>

record ext_methods =
  inferPageType :: "page_data \<Rightarrow> js_error + string"
  inferFormType :: "dom_form \<Rightarrow> js_error + string"

definition undefinedMethods :: ext_methods where
  "undefinedMethods =
     \<lparr>inferPageType = (\<lambda>_. Inl (TypeError ''this.inferPageType is not a function'')),
      inferFormType = (\<lambda>_. Inl (TypeError ''this.inferFormType is not a function''))\<rparr>"

section \<open>\<open>SiteCrawlerExtension\<close>: state and graph store\<close>

text \<open>
  What \<open>saveGraph\<close> hands to the extension's storage:
  \<^verbatim>\<open>
  { graph: this.siteGraph,
    stats: { ...this.stats, nodeCount: ..., edgeCount: this.siteGraph.edges.length },
    config: this.config }
  \<close>
  (the time stamps and the node count, which is the number of keys of \<open>nodes\<close>, are left
  out).
\<close>

record graph_data =
  savedNodes :: "string \<rightharpoonup> page_node"
  savedEdges :: "edge list"
  savedPagesVisited :: nat
  savedLinksFound :: nat
  savedElementsFound :: nat
  savedErrors :: "string list"
  savedEdgeCount :: nat
  savedConfig :: config

text \<open>
  The extension's class has the fields of \<open>SiteCrawler\<close> and some more. The last two are
  instrumentation and not in the source: \<open>completeReported\<close> records that \<open>finishCrawl\<close> has
  called the progress callback with \<open>complete: true\<close>, and \<open>savedGraph\<close> is the value that
  \<open>saveGraph\<close> last handed to \<open>chrome.storage.local.set\<close>. The element index keeps, for each
  page id, the keywords of the elements pushed.
\<close>

record ext_crawler = crawler +
  elementsFound :: nat
  crawlInProgress :: bool
  interactiveElements :: "string \<rightharpoonup> element_keywords list"
  completeReported :: bool
  savedGraph :: "graph_data option"

definition logError :: "string \<Rightarrow> 'a crawler_scheme \<Rightarrow> 'a crawler_scheme" where
  "logError msg st = st\<lparr>errors := errors st @ [msg]\<rparr>"

text \<open>\<open>getNodeId\<close> of the extension catches the exception and returns a random id.\<close>

definition getNodeId_ext :: "platform \<Rightarrow> string \<Rightarrow> ext_crawler \<Rightarrow> string \<times> ext_crawler" where
  "getNodeId_ext P u st =
     (case getNodeId P u of
        Inr i \<Rightarrow> (i, st)
      | Inl e \<Rightarrow>
          (''unknown_'' @ randomToken P (draws st),
           (logError (''Error generating ID for '' @ u @ '': '' @ message e) st)
             \<lparr>draws := draws st + 1\<rparr>))"

text \<open>
  \<open>addNode\<close> is called with the page data spread into the metadata, so the branch that
  updates an existing node also overwrites its \<open>url\<close> with the page's \<open>location.href\<close> and
  copies the path; the page data has the property \<open>screenshot\<close> only when a capture was
  taken. A prototype object of the extension's store is such a copy of a page's data.
\<close>

definition extProps :: "page_node \<Rightarrow> string \<Rightarrow> bool option" where
  "extProps p k =
     map_of [(''title'', node_title p \<noteq> []), (''description'', node_description p \<noteq> []),
             (''path'', node_path p \<noteq> []), (''headings'', True),
             (''links'', node_links p \<noteq> 0), (''forms'', node_forms p \<noteq> 0),
             (''buttons'', node_buttons p \<noteq> 0), (''inputs'', node_inputs p \<noteq> 0),
             (''modals'', True), (''url'', node_url p \<noteq> []), (''timestamp'', True),
             (''screenshot'', node_screenshot p \<noteq> [])] k"

definition mergeNode_ext :: "page_node \<Rightarrow> page_data \<Rightarrow> page_node" where
  "mergeNode_ext n pd =
     (mergeNode n (pd_meta pd))
       \<lparr>node_url := pd_url pd, node_path := pd_path pd,
        node_screenshot := orElse (mscreenshot (pd_meta pd)) (node_screenshot n)\<rparr>"

definition putNode_ext :: "string \<Rightarrow> string \<Rightarrow> page_data \<Rightarrow> ext_crawler \<Rightarrow> ext_crawler" where
  "putNode_ext i u pd st =
     (case lookupNode extProps st i of
        NoValue \<Rightarrow> storeNode i (newNode i u (pd_meta pd)) st
      | NodeValue n \<Rightarrow> storeNode i (mergeNode_ext n pd) st
      | OtherValue truthy \<Rightarrow>
          (if truthy then storeNode i (mergeNode_ext bareNode pd) st
           else storeNode i (newNode i u (pd_meta pd)) st))"

definition addNode_ext :: "platform \<Rightarrow> string \<Rightarrow> page_data \<Rightarrow> ext_crawler \<Rightarrow> string \<times> ext_crawler" where
  "addNode_ext P u pd st =
     (case getNodeId_ext P u st of (i, st1) \<Rightarrow> (i, putNode_ext i u pd st1))"

definition addEdge_ext :: "platform \<Rightarrow> string \<Rightarrow> string \<Rightarrow> edge_meta \<Rightarrow> ext_crawler \<Rightarrow> ext_crawler" where
  "addEdge_ext P fromUrl toUrl m st =
     (case getNodeId_ext P fromUrl st of
        (fromId, st1) \<Rightarrow>
          (case getNodeId_ext P toUrl st1 of
             (toId, st2) \<Rightarrow> st2\<lparr>edges := edges st2 @ [mkEdge fromId toId m]\<rparr>))"

section \<open>\<open>SiteCrawlerExtension\<close>: processing a loaded page\<close>

text \<open>
  \<open>this.interactiveElements\<close> is a plain object too: a key that it does not own is found in
  \<open>Object.prototype\<close> when it is one of the names there. The value found is then no entry
  of the index: it has no property \<open>elements\<close>, and the call of \<open>push\<close> on that throws a
  \<open>TypeError\<close>.
\<close>

definition indexEntry :: "ext_crawler \<Rightarrow> string \<Rightarrow> element_keywords list" where
  "indexEntry st urlKey = (case interactiveElements st urlKey of None \<Rightarrow> [] | Some ks \<Rightarrow> ks)"

definition entryFound :: "ext_crawler \<Rightarrow> string \<Rightarrow> bool" where
  "entryFound st urlKey \<longleftrightarrow>
     interactiveElements st urlKey \<noteq> None \<or> urlKey \<in> set objectPrototypeKeys"

text \<open>
  \<^verbatim>\<open>
  const keywords = this.generateElementKeyword(element);
  this.interactiveElements[urlKey].elements.push({ ...element, keywords });
  this.stats.elementsFound++;
  \<close>
\<close>

definition indexElement ::
  "platform \<Rightarrow> string \<Rightarrow> element \<Rightarrow> ext_crawler \<Rightarrow> ext_crawler \<times> js_error option" where
  "indexElement P urlKey el st =
     (let kw = generateElementKeyword (randomToken P (draws st)) el;
          st1 = st\<lparr>draws := (if usesRandom el then draws st + 1 else draws st)\<rparr>
      in case interactiveElements st1 urlKey of
           None \<Rightarrow> (st1, Some (TypeError ''Cannot read properties of undefined (reading 'push')''))
         | Some ks \<Rightarrow>
             (st1\<lparr>elementsFound := elementsFound st1 + 1,
                   interactiveElements := (interactiveElements st1)(urlKey \<mapsto> ks @ [kw])\<rparr>,
              None))"

fun indexAll ::
  "platform \<Rightarrow> string \<Rightarrow> element list \<Rightarrow> ext_crawler \<Rightarrow> ext_crawler \<times> js_error option" where
  "indexAll P urlKey [] st = (st, None)"
| "indexAll P urlKey (el # els) st =
     (case indexElement P urlKey el st of
        (st1, Some e) \<Rightarrow> (st1, Some e)
      | (st1, None) \<Rightarrow> indexAll P urlKey els st1)"

fun inferForms :: "ext_methods \<Rightarrow> dom_form list \<Rightarrow> js_error option" where
  "inferForms M [] = None"
| "inferForms M (f # fs) =
     (case inferFormType M f of Inl e \<Rightarrow> Some e | Inr _ \<Rightarrow> inferForms M fs)"

definition openEntry :: "string \<Rightarrow> ext_crawler \<Rightarrow> ext_crawler" where
  "openEntry urlKey st =
     (if entryFound st urlKey then st
      else st\<lparr>interactiveElements := (interactiveElements st)(urlKey \<mapsto> [])\<rparr>)"

text \<open>The block "Process interactive elements with enhanced keywords".\<close>

definition indexElements ::
  "platform \<Rightarrow> ext_methods \<Rightarrow> string \<Rightarrow> page_data \<Rightarrow> ext_crawler \<Rightarrow> ext_crawler \<times> js_error option" where
  "indexElements P M u pd st =
     (if pd_interactiveElements pd \<noteq> [] then
        (case getNodeId_ext P u st of
           (urlKey, st1) \<Rightarrow>
             (case (if entryFound st1 urlKey then Inr [] else inferPageType M pd) of
                Inl e \<Rightarrow> (st1, Some e)
              | Inr _ \<Rightarrow>
                  (case indexAll P urlKey (pd_interactiveElements pd) (openEntry urlKey st1) of
                     (st2, Some e) \<Rightarrow> (st2, Some e)
                   | (st2, None) \<Rightarrow>
                       (st2, if extractedForms pd \<noteq> [] then inferForms M (extractedForms pd)
                             else None))))
      else (st, None))"

definition buttonElement :: "extracted_button \<Rightarrow> element" where
  "buttonElement b =
     \<lparr>etype = ''button'', ariaLabel = xb_ariaLabel b, placeholder = [], alt = [],
      ename = xb_name b, eid = xb_id b, etitle = [], etext = xb_text b,
      contextHint = xb_context b\<rparr>"

text \<open>The block "Process extracted buttons".\<close>

definition indexButtons ::
  "platform \<Rightarrow> string \<Rightarrow> page_data \<Rightarrow> ext_crawler \<Rightarrow> ext_crawler \<times> js_error option" where
  "indexButtons P u pd st =
     (if extractedButtons pd \<noteq> [] then
        (case getNodeId_ext P u st of
           (urlKey, st1) \<Rightarrow>
             indexAll P urlKey (map buttonElement (extractedButtons pd)) (openEntry urlKey st1))
      else (st, None))"

definition getDepthForUrl :: "ext_crawler \<Rightarrow> string \<Rightarrow> nat" where
  "getDepthForUrl st u =
     (if u = startUrl st then 0
      else (case find (\<lambda>item. fst item = u) (urlQueue st) of
              Some entry \<Rightarrow> snd entry
            | None \<Rightarrow> maxDepth (config st)))"

text \<open>One round of the loop "Process links found on the page".\<close>

definition enqueueLink ::
  "platform \<Rightarrow> string \<Rightarrow> extracted_link \<Rightarrow> ext_crawler \<Rightarrow> ext_crawler \<times> js_error option" where
  "enqueueLink P u l st =
     (case normalizeUrl P (xl_url l) u st of
        Inl e \<Rightarrow> (st, Some e)
      | Inr (None, st1) \<Rightarrow> (st1, None)
      | Inr (Some normalizedUrl, st1) \<Rightarrow>
          (if normalizedUrl = [] then (st1, None)
           else
             (case shouldCrawl P normalizedUrl st1 of
                Inl e \<Rightarrow> (st1, Some e)
              | Inr (False, st2) \<Rightarrow> (st2, None)
              | Inr (True, st2) \<Rightarrow>
                  (let st3 = addEdge_ext P u normalizedUrl
                               \<lparr>em_type = ''link'', em_text = xl_text l, em_selector = xl_selector l\<rparr> st2;
                       currentDepth = getDepthForUrl st3 u
                   in if currentDepth < maxDepth (config st3)
                      then (st3\<lparr>urlQueue := urlQueue st3 @ [(normalizedUrl, currentDepth + 1)]\<rparr>, None)
                      else (st3, None)))))"

fun enqueueLinks ::
  "platform \<Rightarrow> string \<Rightarrow> extracted_link list \<Rightarrow> ext_crawler \<Rightarrow> ext_crawler \<times> js_error option" where
  "enqueueLinks P u [] st = (st, None)"
| "enqueueLinks P u (l # ls) st =
     (case enqueueLink P u l st of
        (st1, Some e) \<Rightarrow> (st1, Some e)
      | (st1, None) \<Rightarrow> enqueueLinks P u ls st1)"

definition processExtractedLinks ::
  "platform \<Rightarrow> string \<Rightarrow> page_data \<Rightarrow> ext_crawler \<Rightarrow> ext_crawler \<times> js_error option" where
  "processExtractedLinks P u pd st =
     (if extractedLinks pd \<noteq> [] then
        enqueueLinks P u (extractedLinks pd)
          (st\<lparr>linksFound := linksFound st + length (extractedLinks pd)\<rparr>)
      else (st, None))"

text \<open>The block "Add hypothetical button interactions if enabled".\<close>

definition captureButtons :: "platform \<Rightarrow> string \<Rightarrow> page_data \<Rightarrow> ext_crawler \<Rightarrow> ext_crawler" where
  "captureButtons P u pd st =
     (if captureButtonInteractions (config st) then
        (case getNodeId_ext P u st of
           (nodeId, st1) \<Rightarrow>
             fold (\<lambda>b. addButtonState nodeId u (mtitle (pd_meta pd)) (xb_text b) (xb_selector b))
               (extractedButtons pd) st1)
      else st)"

text \<open>
  The \<open>try\<close> block of \<open>processPageData\<close>. The page data is \<open>None\<close> when the injected script
  gave no result object; reading a property of it throws.
\<close>

definition processPageData_try ::
  "platform \<Rightarrow> ext_methods \<Rightarrow> string \<Rightarrow> page_data option \<Rightarrow> ext_crawler \<Rightarrow> ext_crawler \<times> js_error option" where
  "processPageData_try P M u pageData st =
     (case pageData of
        None \<Rightarrow> (st, Some (TypeError ''Cannot read properties of undefined''))
      | Some pd \<Rightarrow>
          (case inferPageType M pd of
             Inl e \<Rightarrow> (st, Some e)
           | Inr _ \<Rightarrow>
               (case addNode_ext P u pd st of
                  (_, st1) \<Rightarrow>
                    (case indexElements P M u pd
                            (st1\<lparr>visitedUrls := insert u (visitedUrls st1),
                                  pagesVisited := pagesVisited st1 + 1\<rparr>) of
                       (st2, Some e) \<Rightarrow> (st2, Some e)
                     | (st2, None) \<Rightarrow>
                         (case indexButtons P u pd st2 of
                            (st3, Some e) \<Rightarrow> (st3, Some e)
                          | (st3, None) \<Rightarrow>
                              (case processExtractedLinks P u pd st3 of
                                 (st4, Some e) \<Rightarrow> (st4, Some e)
                               | (st4, None) \<Rightarrow> (captureButtons P u pd st4, None)))))))"

definition processPageData ::
  "platform \<Rightarrow> ext_methods \<Rightarrow> string \<Rightarrow> page_data option \<Rightarrow> ext_crawler \<Rightarrow> ext_crawler" where
  "processPageData P M u pageData st =
     (case processPageData_try P M u pageData st of
        (st1, None) \<Rightarrow> st1
      | (st1, Some e) \<Rightarrow> logError (''Error processing page data from '' @ u @ '': '' @ message e) st1)"

section \<open>\<open>SiteCrawlerExtension\<close>: the scheduler\<close>

text \<open>
  What happens after \<open>crawlUrl\<close> has asked for a tab: the tab cannot be created, the page
  does not load within the 30 seconds of the timer, the injected script fails, or the page
  loads under some final URL with the script's result. The flag that comes with the outcome
  says that \<open>stopCrawl\<close> was called while the crawler waited; \<open>StopRequested\<close> is a call of
  \<open>stopCrawl\<close> after which no callback of the tab runs any more.
\<close>

datatype tab_outcome =
    CreateFails string
  | LoadTimeout
  | ScriptFails string string
  | Loaded string "dom option"
  | StopRequested

type_synonym tabs = "nat \<Rightarrow> string \<Rightarrow> tab_outcome \<times> bool"

definition stopCrawl :: "ext_crawler \<Rightarrow> ext_crawler" where
  "stopCrawl st = st\<lparr>crawlInProgress := False\<rparr>"

text \<open>
  \<open>saveGraph\<close> and \<open>finishCrawl\<close>. A failure of the storage is logged to the console only;
  the progress callback is the caller's function and is taken to return.
\<close>

definition saveGraph :: "ext_crawler \<Rightarrow> graph_data" where
  "saveGraph st =
     \<lparr>savedNodes = nodes st, savedEdges = edges st, savedPagesVisited = pagesVisited st,
      savedLinksFound = linksFound st, savedElementsFound = elementsFound st,
      savedErrors = errors st, savedEdgeCount = length (edges st), savedConfig = config st\<rparr>"

definition finishCrawl :: "ext_crawler \<Rightarrow> ext_crawler" where
  "finishCrawl st =
     st\<lparr>crawlInProgress := False, savedGraph := Some (saveGraph st), completeReported := True\<rparr>"

text \<open>
  \<open>crawlUrl\<close> up to the point where the chain of callbacks calls \<open>processNextUrl\<close> again
  (directly, or through \<open>continueToNextUrl\<close>); the flag returned is false when no such call
  follows.
\<close>

definition crawlUrl ::
  "platform \<Rightarrow> ext_methods \<Rightarrow> tabs \<Rightarrow> string \<Rightarrow> ext_crawler \<Rightarrow> js_error + (ext_crawler \<times> bool)" where
  "crawlUrl P M T u st =
     (case shouldCrawl P u st of
        Inl e \<Rightarrow> Inl e
      | Inr (False, st1) \<Rightarrow> Inr (st1, True)
      | Inr (True, st1) \<Rightarrow>
          (case T (length (navigated st1)) u of
             (outcome, stopped) \<Rightarrow>
               (let st2 = st1\<lparr>navigated := navigated st1 @ [u]\<rparr>;
                    st3 = (if stopped then stopCrawl st2 else st2)
                in Inr (case outcome of
                     CreateFails msg \<Rightarrow>
                       (logError (''Error creating tab for '' @ u @ '': '' @ msg) st3, True)
                   | LoadTimeout \<Rightarrow>
                       (logError (''Timeout waiting for '' @ u @ '' to load'') st3, True)
                   | ScriptFails tabUrl msg \<Rightarrow>
                       (logError (''Error extracting data from '' @ tabUrl @ '': '' @ msg) st3, True)
                   | Loaded tabUrl d \<Rightarrow>
                       (processPageData P M tabUrl
                          (map_option (\<lambda>x. withScreenshot (config st3) x (extractPageDataScript x)) d)
                          st3, True)
                   | StopRequested \<Rightarrow> (stopCrawl st2, False)))))"

text \<open>
  \<open>processNextUrl\<close>, with the calls that come back to it through the callbacks made direct:
  \<^verbatim>\<open>
  if (this.urlQueue.length > 0 && this.stats.pagesVisited < this.config.maxPages
      && this.crawlInProgress) {
    const next = this.urlQueue.shift();
    this.crawlUrl(next.url);
  } else {
    this.finishCrawl();
  }
  \<close>
\<close>

definition ext_running :: "ext_crawler \<Rightarrow> bool" where
  "ext_running st \<longleftrightarrow>
     urlQueue st \<noteq> [] \<and> pagesVisited st < maxPages (config st) \<and> crawlInProgress st"

definition nextUrl ::
  "platform \<Rightarrow> ext_methods \<Rightarrow> tabs \<Rightarrow> ext_crawler \<Rightarrow> js_error + (ext_crawler \<times> bool)" where
  "nextUrl P M T st =
     (case urlQueue st of
        [] \<Rightarrow> Inr (st, True)
      | next # rest \<Rightarrow> crawlUrl P M T (fst next) (st\<lparr>urlQueue := rest\<rparr>))"

partial_function (option) processNextUrl ::
  "platform \<Rightarrow> ext_methods \<Rightarrow> tabs \<Rightarrow> ext_crawler \<Rightarrow> (js_error + ext_crawler) option" where
  "processNextUrl P M T st =
     (if ext_running st then
        (case nextUrl P M T st of
           Inl e \<Rightarrow> Some (Inl e)
         | Inr r \<Rightarrow> (if snd r then processNextUrl P M T (fst r) else Some (Inr (fst r))))
      else Some (Inr (finishCrawl st)))"

text \<open>
  The state in which \<open>processNextUrl\<close> is entered for the \<open>n\<close>-th time after the first; the
  flag is false when \<open>stopCrawl\<close> has ended the chain of callbacks before.
\<close>

fun nextUrlSteps ::
  "nat \<Rightarrow> platform \<Rightarrow> ext_methods \<Rightarrow> tabs \<Rightarrow> ext_crawler \<Rightarrow> js_error + (ext_crawler \<times> bool)" where
  "nextUrlSteps 0 P M T st = Inr (st, True)"
| "nextUrlSteps (Suc n) P M T st =
     (if ext_running st then
        (case nextUrl P M T st of
           Inl e \<Rightarrow> Inl e
         | Inr r \<Rightarrow> (if snd r then nextUrlSteps n P M T (fst r) else Inr r))
      else Inr (st, True))"

definition startCrawl ::
  "platform \<Rightarrow> ext_methods \<Rightarrow> tabs \<Rightarrow> ext_crawler \<Rightarrow> (js_error + ext_crawler) option" where
  "startCrawl P M T st =
     (if crawlInProgress st then Some (Inl (Error ''Crawl already in progress''))
      else processNextUrl P M T (st\<lparr>crawlInProgress := True, urlQueue := [(startUrl st, 0)]\<rparr>))"

text \<open>
  The constructor; \<open>stored\<close> is the element index that \<open>loadStoredElements\<close> finds in the
  extension's storage.
\<close>

definition newSiteCrawlerExtension ::
  "platform \<Rightarrow> string \<Rightarrow> config \<Rightarrow> (string \<rightharpoonup> element_keywords list) \<Rightarrow> js_error + ext_crawler" where
  "newSiteCrawlerExtension P start cfg stored =
     (case parseURL P start of
        None \<Rightarrow> Inl (TypeError ''Invalid URL'')
      | Some parsedUrl \<Rightarrow>
          Inr \<lparr>startUrl = start, config = cfg, baseHostname = hostname parsedUrl,
               nodes = Map.empty, nodesProto = None, edges = [], visitedUrls = {}, urlQueue = [],
               pagesVisited = 0, linksFound = 0, errors = [], navigated = [], draws = 0,
               browserSet = False, elementsFound = 0, crawlInProgress = False,
               interactiveElements = stored, completeReported = False, savedGraph = None\<rparr>)"

section \<open>Sample inputs\<close>

text \<open>
  A small site for evaluating the model: the platform's URL parser on the strings that
  occur, and the pages the browser loads. The home page links to \<open>/about\<close> and to another
  host; the page \<open>/about\<close> links back and has a button.
\<close>

definition mkURL :: "string \<Rightarrow> string \<Rightarrow> string \<Rightarrow> string \<Rightarrow> string \<Rightarrow> URL" where
  "mkURL pr h pa se ha = \<lparr>protocol = pr, hostname = h, pathname = pa, search = se, hash = ha\<rparr>"

definition sampleParse :: "string \<Rightarrow> URL option" where
  "sampleParse = map_of
     [(''http://a.io/'', mkURL ''http:'' ''a.io'' ''/'' [] []),
      (''http://a.io/about'', mkURL ''http:'' ''a.io'' ''/about'' [] []),
      (''http://a.io/about?x=1'', mkURL ''http:'' ''a.io'' ''/about'' ''?x=1'' []),
      (''http://a.io/doc.PDF'', mkURL ''http:'' ''a.io'' ''/doc.PDF'' [] []),
      (''http://a.io/constructor'', mkURL ''http:'' ''a.io'' ''/constructor'' [] []),
      (''http://a.io/__proto__'', mkURL ''http:'' ''a.io'' ''/__proto__'' [] []),
      (''http://a.io/title'', mkURL ''http:'' ''a.io'' ''/title'' [] []),
      (''http://b.io/'', mkURL ''http:'' ''b.io'' ''/'' [] []),
      (''httpx://a.io/'', mkURL ''httpx:'' ''a.io'' ''/'' [] []),
      (''mailto:x@a.io'', mkURL ''mailto:'' [] ''x@a.io'' [] [])]"

definition sampleResolve :: "string \<Rightarrow> string \<Rightarrow> URL option" where
  "sampleResolve u base = map_of
     [((''/about'', ''http://a.io/''), mkURL ''http:'' ''a.io'' ''/about'' [] []),
      ((''/about?x=1#team'', ''http://a.io/''), mkURL ''http:'' ''a.io'' ''/about'' ''?x=1'' ''#team''),
      ((''http://b.io/'', ''http://a.io/''), mkURL ''http:'' ''b.io'' ''/'' [] []),
      ((''/'', ''http://a.io/about''), mkURL ''http:'' ''a.io'' ''/'' [] [])] (u, base)"

definition sampleSerialize :: "URL \<Rightarrow> string" where
  "sampleSerialize a = protocol a @ ''//'' @ hostname a @ pathname a @ search a @ hash a"

definition samplePlatform :: platform where
  "samplePlatform = \<lparr>parseURL = sampleParse, resolveURL = sampleResolve,
     serializeURL = sampleSerialize, randomToken = (\<lambda>n. ''k3x9'' @ showNat n),
     joinPath = (\<lambda>d f. d @ ''/'' @ f)\<rparr>"

definition sampleConfig :: config where
  "sampleConfig = \<lparr>maxDepth = 0, maxPages = 5, maxLinksPerPage = 50, ignoreParams = True,
     followExternalLinks = False, captureButtonInteractions = True, saveScreenshots = True,
     screenshotsDir = ''./output/screenshots'', exportGraph_flag = True,
     includeScreenshots = True\<rparr>"

definition sampleCrawler :: crawler where
  "sampleCrawler =
     \<lparr>startUrl = ''http://a.io/'', config = sampleConfig, baseHostname = ''a.io'',
      nodes = Map.empty, nodesProto = None, edges = [], visitedUrls = {}, urlQueue = [],
      pagesVisited = 0, linksFound = 0, errors = [], navigated = [], draws = 0,
               browserSet = False\<rparr>"

definition anchorTo :: "string \<Rightarrow> string \<Rightarrow> dom_anchor" where
  "anchorTo h t =
     \<lparr>href = h, anchorText = t, anchorTitle = [], anchorSelector = ''a'', anchorContext = []\<rparr>"

definition homeDom :: dom where
  "homeDom =
     \<lparr>docTitle = ''Home'', docDescription = [], locationHref = ''http://a.io/'',
      locationPathname = ''/'',
      anchors = [anchorTo ''/about'' ''About'', anchorTo ''http://b.io/'' ''Partner''],
      domButtons = [], domForms = [], domInputs = [], domSelects = [],
      domImages = [], capture = []\<rparr>"

definition aboutDom :: dom where
  "aboutDom =
     \<lparr>docTitle = ''About'', docDescription = [], locationHref = ''http://a.io/about'',
      locationPathname = ''/about'',
      anchors = [anchorTo ''/'' ''Home''],
      domButtons = [labelled ''Save Changes''], domForms = [], domInputs = [], domSelects = [],
      domImages = [], capture = []\<rparr>"

definition loadedPage :: "dom \<Rightarrow> nav_outcome" where
  "loadedPage d = NavOk \<lparr>pageDom = d, metadataError = None, screenshotError = None,
     linksError = None, closeError = None\<rparr>"

definition sampleBrowser :: browser where
  "sampleBrowser n u =
     (if u = ''http://a.io/'' then loadedPage homeDom
      else if u = ''http://a.io/about'' then loadedPage aboutDom
      else NavFails ''net::ERR_NAME_NOT_RESOLVED'')"

declare crawlLoop.simps [code]
declare processNextUrl.simps [code]
declare uniqueLoop.simps [code]

text \<open>A host on which every call succeeds, and one whose output directory is read-only.\<close>

definition sampleHost :: host where
  "sampleHost = \<lparr>mkdirOutput = None, mkdirScreenshots = None, launch = None, writeFile = None,
     closeBrowser = None, closeInHandler = None\<rparr>"

definition readOnlyHost :: host where
  "readOnlyHost = sampleHost\<lparr>writeFile :=
     Some ''EACCES: permission denied, open ./output/site-graph.json''\<rparr>"

definition sampleEdgeMeta :: edge_meta where
  "sampleEdgeMeta = \<lparr>em_type = ''link'', em_text = ''About'', em_selector = ''a''\<rparr>"



definition sampleExtCrawler :: ext_crawler where
  "sampleExtCrawler =
     \<lparr>startUrl = ''http://a.io/'', config = sampleConfig, baseHostname = ''a.io'',
      nodes = Map.empty, nodesProto = None, edges = [], visitedUrls = {}, urlQueue = [],
      pagesVisited = 0, linksFound = 0, errors = [], navigated = [], draws = 0,
      browserSet = False, elementsFound = 0, crawlInProgress = False,
      interactiveElements = Map.empty, completeReported = False, savedGraph = None\<rparr>"

definition emailInput :: element where
  "emailInput =
     \<lparr>etype = ''input'', ariaLabel = [], placeholder = [], alt = [],
      ename = ''email'', eid = [], etitle = [], etext = [], contextHint = []\<rparr>"

text \<open>A button whose text is one no-break space.\<close>

definition blankButton :: element where
  "blankButton =
     \<lparr>etype = ''button'', ariaLabel = [], placeholder = [], alt = [],
      ename = [], eid = [], etitle = [], etext = [CHR 0xA0], contextHint = []\<rparr>"

definition bareAnchor :: element where
  "bareAnchor =
     \<lparr>etype = ''a'', ariaLabel = [], placeholder = [], alt = [],
      ename = [], eid = [], etitle = [], etext = [], contextHint = []\<rparr>"

definition namedA :: element where
  "namedA =
     \<lparr>etype = ''div'', ariaLabel = [], placeholder = [], alt = [],
      ename = [], eid = ''a'', etitle = [], etext = [], contextHint = []\<rparr>"

section \<open>Frame conditions\<close>

text \<open>What a step of the crawler leaves alone.\<close>

definition keeps :: "'a crawler_scheme \<Rightarrow> 'a crawler_scheme \<Rightarrow> bool" where
  "keeps st st' \<longleftrightarrow>
     config st' = config st \<and> startUrl st' = startUrl st \<and> baseHostname st' = baseHostname st
     \<and> pagesVisited st' = pagesVisited st \<and> visitedUrls st' = visitedUrls st
     \<and> navigated st' = navigated st"

definition keeps_ext :: "ext_crawler \<Rightarrow> ext_crawler \<Rightarrow> bool" where
  "keeps_ext st st' \<longleftrightarrow>
     keeps st st' \<and> urlQueue st' = urlQueue st
     \<and> crawlInProgress st' = crawlInProgress st \<and> completeReported st' = completeReported st"


text \<open>Pushing links in the extension: every entry pushed has a depth within the limit.\<close>

definition pushes_within :: "ext_crawler \<Rightarrow> ext_crawler \<Rightarrow> bool" where
  "pushes_within st st' \<longleftrightarrow>
     keeps st st' \<and> crawlInProgress st' = crawlInProgress st
     \<and> completeReported st' = completeReported st
     \<and> (\<exists>ps. urlQueue st' = urlQueue st @ ps
              \<and> (\<forall>x \<in> set ps. 0 < snd x \<and> snd x \<le> maxDepth (config st)))"

text \<open>Termination: the multiset of the remaining depths of the queued entries decreases.\<close>

definition slack :: "crawler \<Rightarrow> nat multiset" where
  "slack st = mset (map (\<lambda>x. maxDepth (config st) + 1 - snd x) (urlQueue st))"

text \<open>What one round of the extension's scheduler may do to a state whose queue, the entry taken off, is \<open>q\<close>.\<close>

definition round_of :: "ext_crawler \<Rightarrow> (string \<times> nat) list \<Rightarrow> ext_crawler \<Rightarrow> bool \<Rightarrow> bool" where
  "round_of st q st' cont \<longleftrightarrow>
     config st' = config st \<and> startUrl st' = startUrl st
     \<and> (crawlInProgress st' \<longrightarrow> crawlInProgress st)
     \<and> completeReported st' = completeReported st
     \<and> (\<not> cont \<longrightarrow> \<not> crawlInProgress st')
     \<and> ((urlQueue st' = q \<and> pagesVisited st' = pagesVisited st)
        \<or> (pagesVisited st' = pagesVisited st + 1
            \<and> (\<exists>ps. urlQueue st' = q @ ps
                    \<and> (\<forall>x \<in> set ps. 0 < snd x \<and> snd x \<le> maxDepth (config st)))))"

text \<open>The measure that decreases with every round of the extension's scheduler.\<close>

definition ext_measure :: "ext_crawler \<Rightarrow> nat \<times> nat" where
  "ext_measure st = (maxPages (config st) - pagesVisited st, length (urlQueue st))"


subsection \<open>Sample inputs for the extension\<close>

text \<open>
  The helper methods defined, a home page with two links to \<open>/about\<close>, and a browser in
  which the first load of \<open>/about\<close> times out.
\<close>

definition sampleMethods :: ext_methods where
  "sampleMethods = \<lparr>inferPageType = (\<lambda>_. Inr ''page''), inferFormType = (\<lambda>_. Inr ''form'')\<rparr>"

definition homeDom2 :: dom where
  "homeDom2 =
     \<lparr>docTitle = ''Home'', docDescription = [], locationHref = ''http://a.io/'',
      locationPathname = ''/'',
      anchors = [anchorTo ''/about'' ''About'', anchorTo ''/about'' ''Team''],
      domButtons = [], domForms = [], domInputs = [], domSelects = [],
      domImages = [], capture = []\<rparr>"

definition sampleTabs :: tabs where
  "sampleTabs n u =
     (if u = ''http://a.io/'' then (Loaded ''http://a.io/'' (Some homeDom2), False)
      else if u = ''http://a.io/about'' \<and> n = 1 then (LoadTimeout, False)
      else if u = ''http://a.io/about'' then (Loaded ''http://a.io/about'' (Some aboutDom), False)
      else (CreateFails ''net::ERR_NAME_NOT_RESOLVED'', False))"

definition timeoutTabs :: tabs where
  "timeoutTabs n u = (LoadTimeout, False)"

text \<open>A page with one input, one button and one link.\<close>

definition formDom :: dom where
  "formDom =
     \<lparr>docTitle = ''Sign in'', docDescription = [], locationHref = ''http://a.io/constructor'',
      locationPathname = ''/constructor'',
      anchors = [anchorTo ''/about'' ''About''],
      domButtons = [labelled ''Save Changes''], domForms = [], domInputs = [emailInput],
      domSelects = [], domImages = [], capture = []\<rparr>"

definition depthOneCrawler :: ext_crawler where
  "depthOneCrawler = sampleExtCrawler\<lparr>config := sampleConfig\<lparr>maxDepth := 1\<rparr>\<rparr>"

definition onePageCrawler :: crawler where
  "onePageCrawler = sampleCrawler\<lparr>config := sampleConfig\<lparr>maxDepth := 1, maxPages := 1\<rparr>\<rparr>"

section \<open>Facts about strings\<close>

lemma startsWith_iff: "startsWith s w \<longleftrightarrow> (\<exists>q. s = w @ q)"
  by (induction s w rule: startsWith.induct) auto

lemma str_includes_iff: "str_includes s w \<longleftrightarrow> (\<exists>p q. s = p @ w @ q)"
proof (induction s)
  case Nil
  then show ?case by auto
next
  case (Cons a s)
  show ?case
  proof
    assume "str_includes (a # s) w"
    then consider "startsWith (a # s) w" | "str_includes s w" by auto
    then show "\<exists>p q. a # s = p @ w @ q"
    proof cases
      case 1
      then obtain q where "a # s = w @ q" using startsWith_iff by blast
      then have "a # s = [] @ w @ q" by simp
      then show ?thesis by blast
    next
      case 2
      then obtain p q where "s = p @ w @ q" using Cons.IH by blast
      then have "a # s = (a # p) @ w @ q" by simp
      then show ?thesis by blast
    qed
  next
    assume "\<exists>p q. a # s = p @ w @ q"
    then obtain p q where pq: "a # s = p @ w @ q" by blast
    show "str_includes (a # s) w"
    proof (cases p)
      case Nil
      with pq have "startsWith (a # s) w" using startsWith_iff by auto
      then show ?thesis by simp
    next
      case (Cons b p')
      with pq have "s = p' @ w @ q" by simp
      then have "str_includes s w" using Cons.IH by blast
      then show ?thesis by simp
    qed
  qed
qed

lemma smalls_not_capitals:
  "list_all (\<lambda>d. d \<notin> set (''ABCDEFGHIJKLMNOPQRSTUVWXYZ'' @ latinCapitals))
     (''abcdefghijklmnopqrstuvwxyz'' @ latinSmalls)"
  by code_simp

lemma lowerChar_idem: "lowerChar (lowerChar c) = lowerChar c"
proof (cases "map_of (zip (''ABCDEFGHIJKLMNOPQRSTUVWXYZ'' @ latinCapitals)
                       (''abcdefghijklmnopqrstuvwxyz'' @ latinSmalls)) c")
  case None
  then show ?thesis by (simp add: lowerChar_def)
next
  case (Some d)
  then have "(c, d) \<in> set (zip (''ABCDEFGHIJKLMNOPQRSTUVWXYZ'' @ latinCapitals)
                       (''abcdefghijklmnopqrstuvwxyz'' @ latinSmalls))"
    by (rule map_of_SomeD)
  then have "d \<in> set (''abcdefghijklmnopqrstuvwxyz'' @ latinSmalls)"
    by (rule set_zip_rightD)
  with smalls_not_capitals
  have "d \<notin> set (''ABCDEFGHIJKLMNOPQRSTUVWXYZ'' @ latinCapitals)"
    unfolding list_all_iff by blast
  then have "d \<notin> fst ` set (zip (''ABCDEFGHIJKLMNOPQRSTUVWXYZ'' @ latinCapitals)
                       (''abcdefghijklmnopqrstuvwxyz'' @ latinSmalls))"
    by (auto dest: set_zip_leftD)
  then have "map_of (zip (''ABCDEFGHIJKLMNOPQRSTUVWXYZ'' @ latinCapitals)
                       (''abcdefghijklmnopqrstuvwxyz'' @ latinSmalls)) d = None"
    by (simp only: map_of_eq_None_iff not_False_eq_True)
  with Some show ?thesis by (simp add: lowerChar_def)
qed

lemma toLowerCase_idem: "toLowerCase (toLowerCase s) = toLowerCase s"
  by (simp add: toLowerCase_def lowerChar_idem)

section \<open>C9: the button safety flag\<close>

lemma dangerTest_iff:
  "dangerTest s \<longleftrightarrow> (\<exists>w \<in> set dangerWords. \<exists>p q. toLowerCase s = p @ w @ q)"
  by (simp add: dangerTest_def list_ex_iff str_includes_iff)

text \<open>
  C9, as the code has it: the flag is false exactly when the lower-cased text of the button
  (its inner text, or else its value) contains one of the five words \<open>logout\<close>, \<open>log out\<close>,
  \<open>sign out\<close>, \<open>delete\<close>, \<open>remove\<close> as a substring; "Delete Account" is unsafe and
  "Save Changes" is safe.
\<close>

theorem isSafeButton_iff:
  "(isSafeButton b = False \<longleftrightarrow>
      (\<exists>w \<in> set [''logout'', ''log out'', ''sign out'', ''delete'', ''remove''].
         \<exists>p q. toLowerCase (orElse (innerText b) (bvalue b)) = p @ w @ q))
   \<and> isSafeButton (labelled ''Delete Account'') = False
   \<and> isSafeButton (labelled ''Save Changes'') = True"
proof (intro conjI)
  have "orElse (bvalue b) [] = bvalue b" by (simp add: orElse_def)
  then show "isSafeButton b = False \<longleftrightarrow>
      (\<exists>w \<in> set [''logout'', ''log out'', ''sign out'', ''delete'', ''remove''].
         \<exists>p q. toLowerCase (orElse (innerText b) (bvalue b)) = p @ w @ q)"
    unfolding isSafeButton_def buttonText_def dangerTest_iff toLowerCase_idem dangerWords_def
    by simp
  show "isSafeButton (labelled ''Delete Account'') = False"
    by code_simp
  show "isSafeButton (labelled ''Save Changes'') = True"
    by code_simp
qed

theorem isSafeButton_iff_witness:
  "isSafeButton (labelled ''Remove item'') = False
   \<and> (\<exists>w \<in> set [''logout'', ''log out'', ''sign out'', ''delete'', ''remove''].
         \<exists>p q. toLowerCase (orElse (innerText (labelled ''Remove item''))
                   (bvalue (labelled ''Remove item''))) = p @ w @ q)"
proof -
  have f: "isSafeButton (labelled ''Remove item'') = False"
    by code_simp
  from isSafeButton_iff [of "labelled ''Remove item''"] f show ?thesis by blast
qed

text \<open>
  The claim with the four words of the specification fails: a button labelled "Log Out" is
  flagged unsafe although its text contains none of \<open>logout\<close>, \<open>sign out\<close>, \<open>delete\<close>,
  \<open>remove\<close>.
\<close>

theorem isSafeButton_spec_words_counterexample:
  "isSafeButton (labelled ''Log Out'') = False
   \<and> \<not> list_ex (\<lambda>w. str_includes (toLowerCase ''Log Out'') w) specDangerWords"
  by code_simp



section \<open>C8: \<open>normalizeUrl\<close>\<close>

text \<open>
  C8: \<open>normalizeUrl\<close> never throws. When \<open>url\<close> resolves against \<open>base\<close>, the result is the
  resolved URL serialized with its fragment removed, and with its query string removed if
  \<open>ignoreParams\<close> is set and kept otherwise; the state is unchanged. When the URL is
  malformed the result is \<open>null\<close> and one entry is appended to \<open>stats.errors\<close>.
\<close>

theorem normalizeUrl_never_throws:
  "(\<exists>r st'. normalizeUrl P u base st = Inr (r, st'))
   \<and> (\<forall>a. resolveURL P u base = Some a \<longrightarrow>
          normalizeUrl P u base st =
            Inr (Some (serializeURL P
                   (a\<lparr>hash := [], search := (if ignoreParams (config st) then [] else search a)\<rparr>)),
                 st))
   \<and> (resolveURL P u base = None \<longrightarrow>
          normalizeUrl P u base st =
            Inr (None, st\<lparr>errors := errors st @ [''Error normalizing URL '' @ u @ '': Invalid URL'']\<rparr>))"
  by (cases "resolveURL P u base")
     (simp_all add: normalizeUrl_def normalizeUrl_try_def Let_def)

theorem normalizeUrl_never_throws_witness:
  "resolveURL samplePlatform ''/about?x=1#team'' ''http://a.io/''
     = Some (mkURL ''http:'' ''a.io'' ''/about'' ''?x=1'' ''#team'')
   \<and> normalizeUrl samplePlatform ''/about?x=1#team'' ''http://a.io/'' sampleCrawler
       = Inr (Some ''http://a.io/about'', sampleCrawler)
   \<and> resolveURL samplePlatform ''http://['' ''http://a.io/'' = None
   \<and> normalizeUrl samplePlatform ''http://['' ''http://a.io/'' sampleCrawler
       = Inr (None, sampleCrawler\<lparr>errors := [''Error normalizing URL http://[: Invalid URL'']\<rparr>)"
proof -
  have r1: "resolveURL samplePlatform ''/about?x=1#team'' ''http://a.io/''
     = Some (mkURL ''http:'' ''a.io'' ''/about'' ''?x=1'' ''#team'')"
    by (simp add: samplePlatform_def sampleResolve_def)
  have r2: "resolveURL samplePlatform ''http://['' ''http://a.io/'' = None"
    by (simp add: samplePlatform_def sampleResolve_def)
  have c: "ignoreParams (config sampleCrawler)" "errors sampleCrawler = []"
    by (simp_all add: sampleCrawler_def sampleConfig_def)
  have s: "serializeURL samplePlatform
             ((mkURL ''http:'' ''a.io'' ''/about'' ''?x=1'' ''#team'')\<lparr>hash := [], search := []\<rparr>)
           = ''http://a.io/about''"
    by (simp add: samplePlatform_def sampleSerialize_def mkURL_def)
  from normalizeUrl_never_throws [of samplePlatform "''/about?x=1#team''" "''http://a.io/''" sampleCrawler]
       normalizeUrl_never_throws [of samplePlatform "''http://[''" "''http://a.io/''" sampleCrawler]
       r1 r2 c s
  show ?thesis by simp
qed

section \<open>C7: \<open>shouldCrawl\<close>\<close>




text \<open>
  Not part of C7: the scheme test of the source is \<open>protocol.startsWith('http')\<close>, under the
  comment "Skip non-HTTP protocols"; a URL whose scheme is neither \<open>http\<close> nor \<open>https\<close> but
  begins with these letters passes it.
\<close>

lemma shouldCrawl_scheme_prefix:
  "parseURL samplePlatform ''httpx://a.io/'' = Some (mkURL ''httpx:'' ''a.io'' ''/'' [] [])
   \<and> shouldCrawl samplePlatform ''httpx://a.io/'' sampleCrawler = Inr (True, sampleCrawler)"
  by (simp add: shouldCrawl_def shouldCrawl_try_def samplePlatform_def sampleParse_def
      sampleCrawler_def sampleConfig_def mkURL_def fileExtensions_def endsWith_def
      toLowerCase_def lowerChar_def latinCapitals_def latinSmalls_def)

lemma getNodeId_ext_frame:
  "getNodeId_ext P u st = (i, st') \<Longrightarrow>
     nodes st' = nodes st \<and> nodesProto st' = nodesProto st \<and> edges st' = edges st \<and> urlQueue st' = urlQueue st
     \<and> pagesVisited st' = pagesVisited st \<and> visitedUrls st' = visitedUrls st
     \<and> config st' = config st \<and> startUrl st' = startUrl st \<and> baseHostname st' = baseHostname st
     \<and> navigated st' = navigated st \<and> crawlInProgress st' = crawlInProgress st
     \<and> completeReported st' = completeReported st"
  by (auto simp: getNodeId_ext_def logError_def split: sum.splits)

lemma sample_crawlPage:
  "map_sum fst (\<lambda>s. (urlQueue s, edges s, nodes s ''about'', map_option node_virtual (nodes s ''home''),
                    pagesVisited s, navigated s, errors s))
     (crawlPage samplePlatform sampleBrowser ''http://a.io/'' 0 sampleCrawler)
   = Inr ([(''http://a.io/about'', 1)],
          [\<lparr>edge_from = ''home'', edge_to = ''about'', edge_type = ''link'',
            edge_text = ''About'', edge_selector = ''a''\<rparr>],
          None, Some False, 1, [''http://a.io/''], [])"
  by code_simp

lemma sample_crawl:
  "map_option (\<lambda>x. map_sum id (\<lambda>r. (graphEdges r, graphNodes r ''about'',
                 map_option node_virtual (graphNodes r ''home''), statsPagesVisited r, statsErrors r))
                 (snd x))
     (crawl sampleHost samplePlatform sampleBrowser sampleCrawler)
   = Some (Inr ([\<lparr>edge_from = ''home'', edge_to = ''about'', edge_type = ''link'',
                   edge_text = ''About'', edge_selector = ''a''\<rparr>],
                None, Some False, 1, []))"
  by code_simp

section \<open>The node store and the element index as plain objects\<close>

lemma lowerChar_alnum:
  "list_all (\<lambda>c. isLowerAlnum (lowerChar c))
     ''abcdefghijklmnopqrstuvwxyz0123456789ABCDEFGHIJKLMNOPQRSTUVWXYZ''"
  by code_simp

lemma lowerChar_underscore: "lowerChar CHR ''_'' = CHR ''_''"
  by code_simp

text \<open>A node id has no capital letter: it consists of small letters, digits and underscores.\<close>

lemma getNodeId_chars:
  assumes "getNodeId P u = Inr i"
  shows "\<forall>c \<in> set i. isLowerAlnum c \<or> c = CHR ''_''"
proof -
  have l: "isLowerAlnum (lowerChar c) \<or> lowerChar c = CHR ''_''" if "isAlnum c \<or> c = CHR ''_''" for c
  proof (cases "c = CHR ''_''")
    case True
    then show ?thesis by (simp add: lowerChar_underscore)
  next
    case False
    with that have "isAlnum c" by simp
    then have "c \<in> set ''abcdefghijklmnopqrstuvwxyz0123456789ABCDEFGHIJKLMNOPQRSTUVWXYZ''"
      by (auto simp: isAlnum_def isLowerAlnum_def)
    with lowerChar_alnum show ?thesis unfolding list_all_iff by blast
  qed
  have r: "\<forall>c \<in> set (toLowerCase (replaceNonAlnum x)). isLowerAlnum c \<or> c = CHR ''_''" for x
    using l by (auto simp: toLowerCase_def replaceNonAlnum_def)
  have h: "\<forall>c \<in> set ''home''. isLowerAlnum c \<or> c = CHR ''_''"
    by (simp add: isLowerAlnum_def)
  from assms obtain x where "i = orElse (toLowerCase (replaceNonAlnum x)) ''home''"
    by (auto simp: getNodeId_def Let_def split: option.splits)
  with r [of x] h show ?thesis by (simp add: orElse_def split: if_splits)
qed

text \<open>
  A page whose path is \<open>/constructor\<close>: the store finds the function \<open>Object\<close> under that
  key, \<open>addNode\<close> takes the branch that updates a node, and the node stored has neither
  \<open>id\<close> nor \<open>url\<close>. A page whose path is \<open>/__proto__\<close> adds no node: its metadata become the
  prototype of the store, and a later page \<open>/title\<close> finds the title there.
\<close>

lemma sample_inherited_keys:
  "map_sum id (\<lambda>r. (fst r, map_option (\<lambda>n. (node_id n, node_url n, node_title n))
                              (nodes (snd r) ''constructor'')))
     (addNode samplePlatform ''http://a.io/constructor'' (domMetadata homeDom) sampleCrawler)
   = Inr (''constructor'', Some ([], [], ''Home''))
   \<and> map_sum id (\<lambda>r. (fst r, nodes (snd r) ''__proto__'', map_option node_title (nodesProto (snd r))))
       (addNode samplePlatform ''http://a.io/__proto__'' (domMetadata homeDom) sampleCrawler)
     = Inr (''__proto__'', None, Some ''Home'')
   \<and> map_option node_id
       (nodes (putNode ''title'' ''http://a.io/title'' (domMetadata aboutDom)
                (putNode ''__proto__'' ''http://a.io/__proto__'' (domMetadata homeDom) sampleCrawler))
          ''title'')
     = Some []
   \<and> map_option node_id
       (nodes (putNode ''title'' ''http://a.io/title'' (domMetadata aboutDom) sampleCrawler) ''title'')
     = Some ''title''"
  by code_simp

text \<open>
  In the extension, a page \<open>/constructor\<close> with an input: the index finds \<open>Object\<close> under
  the key, opens no entry, and the first \<open>push\<close> throws; the handler of \<open>processPageData\<close>
  logs the error, and the links of the page are not looked at.
\<close>

lemma sample_inherited_index:
  "(\<lambda>s. (pagesVisited s, urlQueue s, interactiveElements s ''constructor'', errors s))
     (processPageData samplePlatform sampleMethods ''http://a.io/constructor''
        (Some (extractPageDataScript formDom)) depthOneCrawler)
   = (1, [], None,
      [''Error processing page data from http://a.io/constructor: Cannot read properties of undefined (reading 'push')''])"
  by code_simp

section \<open>C10: \<open>addEdge\<close>\<close>

text \<open>
  C10: \<open>addEdge\<close> appends exactly one edge to the edge list and leaves the node map
  unchanged (its properties and its prototype), in the extension on every call and in
  \<open>SiteCrawler\<close> on every call that returns; and a crawl can end with a link edge whose
  target id is no key of the node map (the crawl of the sample site does).
\<close>


theorem addEdge_appends_one_edge:
  "(\<exists>e. edges (addEdge_ext P fromUrl toUrl m st) = edges st @ [e])
   \<and> nodes (addEdge_ext P fromUrl toUrl m st) = nodes st
   \<and> nodesProto (addEdge_ext P fromUrl toUrl m st) = nodesProto st
   \<and> (\<forall>c'. addEdge P fromUrl toUrl m c = Inr c' \<longrightarrow>
         (\<exists>e. edges c' = edges c @ [e]) \<and> nodes c' = nodes c \<and> nodesProto c' = nodesProto c)
   \<and> (\<exists>s r. crawl sampleHost samplePlatform sampleBrowser sampleCrawler = Some (s, Inr r)
          \<and> (\<exists>e \<in> set (graphEdges r). edge_type e = ''link'' \<and> graphNodes r (edge_to e) = None))"
proof -
  obtain i1 s1 where g1: "getNodeId_ext P fromUrl st = (i1, s1)" by (cases "getNodeId_ext P fromUrl st")
  obtain i2 s2 where g2: "getNodeId_ext P toUrl s1 = (i2, s2)" by (cases "getNodeId_ext P toUrl s1")
  from g1 g2 have r: "addEdge_ext P fromUrl toUrl m st = s2\<lparr>edges := edges s2 @ [mkEdge i1 i2 m]\<rparr>"
    by (simp add: addEdge_ext_def)
  from getNodeId_ext_frame [OF g1] getNodeId_ext_frame [OF g2]
  have f: "edges s2 = edges st" "nodes s2 = nodes st" "nodesProto s2 = nodesProto st" by simp_all
  from r f have a: "\<exists>e. edges (addEdge_ext P fromUrl toUrl m st) = edges st @ [e]" by simp
  from r f have b: "nodes (addEdge_ext P fromUrl toUrl m st) = nodes st"
    "nodesProto (addEdge_ext P fromUrl toUrl m st) = nodesProto st" by simp_all
  have c: "\<forall>c'. addEdge P fromUrl toUrl m c = Inr c' \<longrightarrow>
         (\<exists>e. edges c' = edges c @ [e]) \<and> nodes c' = nodes c \<and> nodesProto c' = nodesProto c"
    by (auto simp: addEdge_def split: sum.splits)
  obtain x where x: "crawl sampleHost samplePlatform sampleBrowser sampleCrawler = x" by blast
  with sample_crawl obtain s r where r: "x = Some (s, Inr r)"
    and e: "graphEdges r = [\<lparr>edge_from = ''home'', edge_to = ''about'', edge_type = ''link'',
                   edge_text = ''About'', edge_selector = ''a''\<rparr>]"
    and n: "graphNodes r ''about'' = None"
    by (cases x) (auto simp: map_sum_def split: sum.splits)
  from e n have "\<exists>e \<in> set (graphEdges r). edge_type e = ''link'' \<and> graphNodes r (edge_to e) = None"
    by simp
  with r x have d: "\<exists>s r. crawl sampleHost samplePlatform sampleBrowser sampleCrawler = Some (s, Inr r)
          \<and> (\<exists>e \<in> set (graphEdges r). edge_type e = ''link'' \<and> graphNodes r (edge_to e) = None)"
    by blast
  from a b c d show ?thesis by blast
qed

lemma sample_addEdge:
  "map_sum id (\<lambda>s. (edges s, nodes s ''home'', nodes s ''about''))
     (addEdge samplePlatform ''http://a.io/'' ''http://a.io/about'' sampleEdgeMeta sampleCrawler)
   = Inr ([\<lparr>edge_from = ''home'', edge_to = ''about'', edge_type = ''link'',
            edge_text = ''About'', edge_selector = ''a''\<rparr>], None, None)"
  by code_simp

theorem addEdge_appends_one_edge_witness:
  "\<exists>c'. addEdge samplePlatform ''http://a.io/'' ''http://a.io/about'' sampleEdgeMeta sampleCrawler = Inr c'
     \<and> (\<exists>e. edges c' = edges sampleCrawler @ [e]) \<and> nodes c' = nodes sampleCrawler
     \<and> nodesProto c' = nodesProto sampleCrawler \<and> nodes c' ''about'' = None"
proof -
  obtain x where x: "addEdge samplePlatform ''http://a.io/'' ''http://a.io/about'' sampleEdgeMeta sampleCrawler = x"
    by blast
  with sample_addEdge obtain c' where c: "x = Inr c'" and n: "nodes c' ''about'' = None"
    by (cases x) auto
  from addEdge_appends_one_edge [where P = samplePlatform and fromUrl = "''http://a.io/''"
      and toUrl = "''http://a.io/about''" and m = sampleEdgeMeta and c = sampleCrawler] c x
  have "(\<exists>e. edges c' = edges sampleCrawler @ [e]) \<and> nodes c' = nodes sampleCrawler
        \<and> nodesProto c' = nodesProto sampleCrawler" by blast
  with c x n show ?thesis by blast
qed

section \<open>C5: keyword generation\<close>







text \<open>
  White space is what \<open>String.prototype.trim\<close> strips: a text that consists of a no-break
  space counts as empty, and the keyword is the type with a random token.
\<close>

lemma blank_text_keyword:
  "trim (etext blankButton) = []
   \<and> generateElementKeyword ''k3x9'' blankButton
       = \<lparr>primary = ''button_k3x9'', ktype = ''button'', fullKeyword = ''button_button_k3x9''\<rparr>"
  by code_simp


section \<open>C6: keywords made unique within a page\<close>

lemma digitChar_inj: "a < 10 \<Longrightarrow> b < 10 \<Longrightarrow> digitChar a = digitChar b \<Longrightarrow> a = b"
  unfolding digitChar_def by (auto simp: less_Suc_eq numeral_nat)

lemma digitChar_not_hyphen: "a < 10 \<Longrightarrow> digitChar a \<noteq> CHR ''-''"
  unfolding digitChar_def by (auto simp: less_Suc_eq numeral_nat)

lemma showNat_not_Nil: "showNat n \<noteq> []"
  by (subst showNat.simps) simp

lemma showNat_no_hyphen: "CHR ''-'' \<notin> set (showNat n)"
proof (induction n rule: showNat.induct)
  case (1 n)
  show ?case
  proof (cases "n < 10")
    case True
    then show ?thesis using digitChar_not_hyphen [of n] by (subst showNat.simps) auto
  next
    case False
    then have "n mod 10 < 10" by simp
    with False 1 show ?thesis
      using digitChar_not_hyphen [of "n mod 10"] by (subst showNat.simps) auto
  qed
qed

lemma showNat_inj: "showNat a = showNat b \<Longrightarrow> a = b"
proof (induction a arbitrary: b rule: showNat.induct)
  case (1 a)
  show ?case
  proof (cases "a < 10")
    case True
    note a = this
    show ?thesis
    proof (cases "b < 10")
      case True
      with a 1(2) show ?thesis
        using digitChar_inj [of a b] by (simp add: showNat.simps [of a] showNat.simps [of b])
    next
      case False
      with a 1(2) have "[digitChar a] = showNat (b div 10) @ [digitChar (b mod 10)]"
        by (simp add: showNat.simps [of a] showNat.simps [of b])
      then have "showNat (b div 10) = []" by simp
      then show ?thesis using showNat_not_Nil by blast
    qed
  next
    case False
    note a = this
    show ?thesis
    proof (cases "b < 10")
      case True
      with a 1(2) have "showNat (a div 10) @ [digitChar (a mod 10)] = [digitChar b]"
        by (simp add: showNat.simps [of a] showNat.simps [of b])
      then have "showNat (a div 10) = []" by simp
      then show ?thesis using showNat_not_Nil by blast
    next
      case False
      with a 1(2) have e: "showNat (a div 10) @ [digitChar (a mod 10)]
                          = showNat (b div 10) @ [digitChar (b mod 10)]"
        by (simp add: showNat.simps [of a] showNat.simps [of b])
      then have "showNat (a div 10) = showNat (b div 10)" by simp
      with 1(1) a have d: "a div 10 = b div 10" by blast
      from e have "digitChar (a mod 10) = digitChar (b mod 10)" by simp
      then have m: "a mod 10 = b mod 10" using digitChar_inj [of "a mod 10" "b mod 10"] by simp
      from d m show ?thesis by (metis div_mult_mod_eq)
    qed
  qed
qed

lemma candidate_inj: "candidate k a = candidate k b \<Longrightarrow> a = b"
  by (auto simp: candidate_def showNat_inj split: if_splits)

lemma split_at_first:
  assumes "xs @ a # ys = xs' @ a # ys'" "a \<notin> set xs" "a \<notin> set xs'"
  shows "xs = xs' \<and> ys = ys'"
  using assms
proof (induction xs arbitrary: xs')
  case Nil
  then show ?case by (cases xs') auto
next
  case (Cons x xs)
  then show ?case by (cases xs') auto
qed

lemma candidate_inj2:
  assumes "candidate k a = candidate k' b" "CHR ''-'' \<notin> set k" "CHR ''-'' \<notin> set k'"
  shows "k = k' \<and> a = b"
proof (cases "a = 0")
  case True
  show ?thesis
  proof (cases "b = 0")
    case True
    with \<open>a = 0\<close> assms(1) show ?thesis by (simp add: candidate_def)
  next
    case False
    with \<open>a = 0\<close> assms(1) have "k = k' @ ''-'' @ showNat b" by (simp add: candidate_def)
    then have "CHR ''-'' \<in> set k" by simp
    with assms(2) show ?thesis by blast
  qed
next
  case False
  note a = this
  show ?thesis
  proof (cases "b = 0")
    case True
    with a assms(1) have "k' = k @ ''-'' @ showNat a" by (simp add: candidate_def)
    then have "CHR ''-'' \<in> set k'" by simp
    with assms(3) show ?thesis by blast
  next
    case False
    with a assms(1) have "k @ CHR ''-'' # showNat a = k' @ CHR ''-'' # showNat b"
      by (simp add: candidate_def)
    from split_at_first [OF this assms(2) assms(3)] show ?thesis
      using showNat_inj by blast
  qed
qed

lemma uniqueLoop_finds:
  "c \<le> m \<Longrightarrow> (\<forall>j. c \<le> j \<and> j < m \<longrightarrow> candidate k j \<in> set S) \<Longrightarrow> candidate k m \<notin> set S \<Longrightarrow>
   uniqueLoop S k (candidate k c) (Suc c) = Some (candidate k m)"
proof (induction "m - c" arbitrary: c)
  case 0
  then have "c = m" by simp
  with 0 show ?case by (subst uniqueLoop.simps) simp
next
  case (Suc d)
  then have lt: "c < m" by simp
  with Suc.prems have "candidate k c \<in> set S" by simp
  then have "uniqueLoop S k (candidate k c) (Suc c)
             = uniqueLoop S k (candidate k (Suc c)) (Suc (Suc c))"
    by (subst uniqueLoop.simps) (simp add: candidate_def)
  also have "\<dots> = Some (candidate k m)"
    using Suc.hyps(1) [of "Suc c"] Suc.hyps(2) Suc.prems lt by simp
  finally show ?case .
qed

lemma free_candidate: "\<exists>m. candidate k m \<notin> set S"
proof (rule ccontr)
  assume "\<not> (\<exists>m. candidate k m \<notin> set S)"
  then have "range (candidate k) \<subseteq> set S" by blast
  then have "finite (range (candidate k))" using finite_subset by blast
  moreover have "inj (candidate k)" by (rule injI) (rule candidate_inj)
  ultimately show False using finite_imageD [of "candidate k" UNIV] by simp
qed

lemma makeUnique_least:
  "\<exists>m. makeUnique S k = Some (candidate k m, S @ [candidate k m])
       \<and> candidate k m \<notin> set S \<and> (\<forall>j < m. candidate k j \<in> set S)"
proof -
  from free_candidate obtain m0 where "candidate k m0 \<notin> set S" by blast
  then obtain m where m: "candidate k m \<notin> set S" and least: "\<forall>j < m. candidate k j \<in> set S"
    using exists_least_iff [of "\<lambda>m. candidate k m \<notin> set S"] by blast
  from uniqueLoop_finds [of 0 m k S] m least
  have "uniqueLoop S k k 1 = Some (candidate k m)" by (simp add: candidate_def)
  then have "makeUnique S k = Some (candidate k m, S @ [candidate k m])"
    by (simp add: makeUnique_def)
  with m least show ?thesis by blast
qed

lemma annotate_distinct:
  "\<exists>us. annotate S ks = Some us \<and> length us = length ks \<and> distinct us \<and> set us \<inter> set S = {}
        \<and> list_all2 (\<lambda>k u. \<exists>m. u = candidate k m) ks us"
proof (induction ks arbitrary: S)
  case Nil
  show ?case by simp
next
  case (Cons k ks)
  from makeUnique_least [of S k] obtain m where
    mk: "makeUnique S k = Some (candidate k m, S @ [candidate k m])"
    and fresh: "candidate k m \<notin> set S" by blast
  from Cons.IH [of "S @ [candidate k m]"] obtain us where
    us: "annotate (S @ [candidate k m]) ks = Some us" "length us = length ks" "distinct us"
        "set us \<inter> set (S @ [candidate k m]) = {}"
        "list_all2 (\<lambda>k u. \<exists>m. u = candidate k m) ks us" by blast
  from mk us(1) have "annotate S (k # ks) = Some (candidate k m # us)" by simp
  moreover from us(4) have "candidate k m \<notin> set us" by auto
  moreover from us(4) have "set us \<inter> set S = {}" by auto
  ultimately show ?case using us fresh by auto
qed

lemma set_numberedFrom:
  "set (numberedFrom seen ks)
     = {candidate k j | k j. count_list seen k \<le> j \<and> j < count_list (seen @ ks) k}"
proof (induction ks arbitrary: seen)
  case Nil
  show ?case by simp
next
  case (Cons x ks)
  have "set (numberedFrom seen (x # ks))
        = insert (candidate x (count_list seen x))
            {candidate k j | k j. count_list (seen @ [x]) k \<le> j \<and> j < count_list ((seen @ [x]) @ ks) k}"
    by (simp add: Cons.IH)
  also have "\<dots> = {candidate k j | k j. count_list seen k \<le> j \<and> j < count_list (seen @ x # ks) k}"
  proof (intro equalityI subsetI)
    fix u
    assume "u \<in> insert (candidate x (count_list seen x))
            {candidate k j | k j. count_list (seen @ [x]) k \<le> j \<and> j < count_list ((seen @ [x]) @ ks) k}"
    then consider "u = candidate x (count_list seen x)"
      | k j where "u = candidate k j" "count_list (seen @ [x]) k \<le> j"
          "j < count_list ((seen @ [x]) @ ks) k" by blast
    then show "u \<in> {candidate k j | k j. count_list seen k \<le> j \<and> j < count_list (seen @ x # ks) k}"
    proof cases
      case 1
      have "count_list seen x < count_list (seen @ x # ks) x" by simp
      with 1 show ?thesis by blast
    next
      case 2
      then have "count_list seen k \<le> j" "j < count_list (seen @ x # ks) k" by (auto split: if_splits)
      with 2(1) show ?thesis by blast
    qed
  next
    fix u
    assume "u \<in> {candidate k j | k j. count_list seen k \<le> j \<and> j < count_list (seen @ x # ks) k}"
    then obtain k j where kj: "u = candidate k j" "count_list seen k \<le> j"
      "j < count_list (seen @ x # ks) k" by blast
    show "u \<in> insert (candidate x (count_list seen x))
            {candidate k j | k j. count_list (seen @ [x]) k \<le> j \<and> j < count_list ((seen @ [x]) @ ks) k}"
    proof (cases "k = x \<and> j = count_list seen x")
      case True
      with kj(1) show ?thesis by simp
    next
      case False
      with kj(2,3) have "count_list (seen @ [x]) k \<le> j" "j < count_list ((seen @ [x]) @ ks) k"
        by (auto split: if_splits)
      with kj(1) show ?thesis by blast
    qed
  qed
  finally show ?case .
qed

lemma annotate_numbered_gen:
  assumes "\<forall>k \<in> set (seen @ ks). CHR ''-'' \<notin> set k" "set S = set (numberedFrom [] seen)"
  shows "annotate S ks = Some (numberedFrom seen ks)"
  using assms
proof (induction ks arbitrary: seen S)
  case Nil
  show ?case by simp
next
  case (Cons k ks)
  let ?c = "count_list seen k"
  have S: "set S = {candidate k' j | k' j. j < count_list seen k'}"
    using Cons.prems(2) by (simp add: set_numberedFrom)
  have below: "\<forall>j < ?c. candidate k j \<in> set S" using S by blast
  have fresh: "candidate k ?c \<notin> set S"
  proof
    assume "candidate k ?c \<in> set S"
    with S obtain k' j where kj: "candidate k ?c = candidate k' j" "j < count_list seen k'" by blast
    from kj(2) have "k' \<in> set seen" by (metis count_notin not_less0)
    with Cons.prems(1) have "CHR ''-'' \<notin> set k'" "CHR ''-'' \<notin> set k" by simp_all
    then have "k = k' \<and> ?c = j" using candidate_inj2 [OF kj(1)] by blast
    then have "count_list seen k' = j" by blast
    with kj(2) show False by linarith
  qed
  from uniqueLoop_finds [of 0 ?c k S] below fresh
  have "uniqueLoop S k k 1 = Some (candidate k ?c)" by (simp add: candidate_def)
  then have mk: "makeUnique S k = Some (candidate k ?c, S @ [candidate k ?c])"
    by (simp add: makeUnique_def)
  have "set (S @ [candidate k ?c]) = set (numberedFrom [] (seen @ [k]))"
  proof -
    have "set (numberedFrom [] (seen @ [k]))
          = {candidate k' j | k' j. j < count_list (seen @ [k]) k'}"
      by (simp add: set_numberedFrom)
    also have "\<dots> = insert (candidate k ?c) {candidate k' j | k' j. j < count_list seen k'}"
      by (auto simp: less_Suc_eq split: if_splits)
    finally show ?thesis using S by simp
  qed
  moreover have "\<forall>k' \<in> set ((seen @ [k]) @ ks). CHR ''-'' \<notin> set k'" using Cons.prems(1) by simp
  ultimately have "annotate (S @ [candidate k ?c]) ks = Some (numberedFrom (seen @ [k]) ks)"
    using Cons.IH [of "seen @ [k]" "S @ [candidate k ?c]"] by blast
  with mk show ?case by simp
qed

lemma annotate_numbered:
  "\<forall>k \<in> set ks. CHR ''-'' \<notin> set k \<Longrightarrow> annotate [] ks = Some (numbered ks)"
  using annotate_numbered_gen [of "[]" ks "[]"] by (simp add: numbered_def)

lemma rawKeyword_no_hyphen: "CHR ''-'' \<notin> set (rawKeyword el)"
  by (auto simp: rawKeyword_def Let_def isAlnum_def isLowerAlnum_def)


lemma annotate_least:
  "\<exists>us. annotate S ks = Some us \<and> length us = length ks \<and> distinct us \<and> set us \<inter> set S = {}
        \<and> (\<forall>i < length ks. \<exists>m. us ! i = candidate (ks ! i) m
               \<and> candidate (ks ! i) m \<notin> set S \<union> set (take i us)
               \<and> (\<forall>j < m. candidate (ks ! i) j \<in> set S \<union> set (take i us)))"
proof (induction ks arbitrary: S)
  case Nil
  show ?case by simp
next
  case (Cons k ks)
  from makeUnique_least [of S k] obtain m where
    mk: "makeUnique S k = Some (candidate k m, S @ [candidate k m])"
    and fresh: "candidate k m \<notin> set S"
    and least: "\<forall>j < m. candidate k j \<in> set S" by blast
  let ?c = "candidate k m"
  from Cons.IH [of "S @ [?c]"] obtain us where
    us: "annotate (S @ [?c]) ks = Some us" "length us = length ks" "distinct us"
        "set us \<inter> set (S @ [?c]) = {}"
    and each: "\<forall>i < length ks. \<exists>n. us ! i = candidate (ks ! i) n
               \<and> candidate (ks ! i) n \<notin> set (S @ [?c]) \<union> set (take i us)
               \<and> (\<forall>j < n. candidate (ks ! i) j \<in> set (S @ [?c]) \<union> set (take i us))"
    by blast
  from mk us(1) have r: "annotate S (k # ks) = Some (?c # us)" by simp
  from us(4) have n1: "?c \<notin> set us" by auto
  from us(4) have n2: "set us \<inter> set S = {}" by auto
  have e: "\<forall>i < length (k # ks). \<exists>n. (?c # us) ! i = candidate ((k # ks) ! i) n
               \<and> candidate ((k # ks) ! i) n \<notin> set S \<union> set (take i (?c # us))
               \<and> (\<forall>j < n. candidate ((k # ks) ! i) j \<in> set S \<union> set (take i (?c # us)))"
  proof (intro allI impI)
    fix i assume i: "i < length (k # ks)"
    show "\<exists>n. (?c # us) ! i = candidate ((k # ks) ! i) n
               \<and> candidate ((k # ks) ! i) n \<notin> set S \<union> set (take i (?c # us))
               \<and> (\<forall>j < n. candidate ((k # ks) ! i) j \<in> set S \<union> set (take i (?c # us)))"
    proof (cases i)
      case 0
      with fresh least show ?thesis by (intro exI [of _ m]) simp
    next
      case (Suc i')
      with i have "i' < length ks" by simp
      with each obtain n where n: "us ! i' = candidate (ks ! i') n"
        "candidate (ks ! i') n \<notin> set (S @ [?c]) \<union> set (take i' us)"
        "\<forall>j < n. candidate (ks ! i') j \<in> set (S @ [?c]) \<union> set (take i' us)" by blast
      have s: "set S \<union> set (take i (?c # us)) = set (S @ [?c]) \<union> set (take i' us)"
        using Suc by auto
      from n Suc show ?thesis unfolding s by (intro exI [of _ n]) simp
    qed
  qed
  from r us(2,3) n1 n2 fresh e show ?case by (intro exI [of _ "?c # us"]) auto
qed

text \<open>
  C6, as the code has it. In one run of the page-annotation pass the loop that looks for a
  free keyword always ends and the keywords returned are pairwise distinct, whatever the
  elements and the random tokens. An element whose keyword has not been given out before on
  the page keeps it; otherwise it gets the keyword with the suffix \<open>-n\<close> for the least
  \<open>n \<ge> 1\<close> such that this has not been given out. So when every element of the page has a
  keyword from its attributes or text, the first occurrence of a keyword is unchanged and the
  occurrence after \<open>j\<close> earlier ones gets the suffix \<open>-j\<close>. Each pass starts from an empty
  set: a page with a single element keeps that element's keyword, whatever other pages hold.
\<close>

theorem pageKeywords_unique:
  "(\<exists>us. pageKeywords tokens els = Some us \<and> length us = length els \<and> distinct us
       \<and> (\<forall>i < length els.
             (baseKeyword (tokens i) (els ! i) \<notin> set (take i us) \<longrightarrow>
                us ! i = baseKeyword (tokens i) (els ! i))
           \<and> (baseKeyword (tokens i) (els ! i) \<in> set (take i us) \<longrightarrow>
                (\<exists>n. 1 \<le> n \<and> us ! i = baseKeyword (tokens i) (els ! i) @ ''-'' @ showNat n
                     \<and> us ! i \<notin> set (take i us)
                     \<and> (\<forall>j. 1 \<le> j \<and> j < n \<longrightarrow>
                           baseKeyword (tokens i) (els ! i) @ ''-'' @ showNat j \<in> set (take i us))))))
   \<and> ((\<forall>el \<in> set els. rawKeyword el \<noteq> []) \<longrightarrow>
         pageKeywords tokens els = Some (numbered (map rawKeyword els)))
   \<and> pageKeywords tokens [el] = Some [baseKeyword (tokens 0) el]"
proof -
  let ?ks = "map (\<lambda>i. baseKeyword (tokens i) (els ! i)) [0..<length els]"
  from annotate_least [of "[]" ?ks] obtain us where
    us: "annotate [] ?ks = Some us" "length us = length ?ks" "distinct us"
    and each: "\<forall>i < length ?ks. \<exists>m. us ! i = candidate (?ks ! i) m
               \<and> candidate (?ks ! i) m \<notin> set [] \<union> set (take i us)
               \<and> (\<forall>j < m. candidate (?ks ! i) j \<in> set [] \<union> set (take i us))"
    by blast
  have least: "\<forall>i < length els.
             (baseKeyword (tokens i) (els ! i) \<notin> set (take i us) \<longrightarrow>
                us ! i = baseKeyword (tokens i) (els ! i))
           \<and> (baseKeyword (tokens i) (els ! i) \<in> set (take i us) \<longrightarrow>
                (\<exists>n. 1 \<le> n \<and> us ! i = baseKeyword (tokens i) (els ! i) @ ''-'' @ showNat n
                     \<and> us ! i \<notin> set (take i us)
                     \<and> (\<forall>j. 1 \<le> j \<and> j < n \<longrightarrow>
                           baseKeyword (tokens i) (els ! i) @ ''-'' @ showNat j \<in> set (take i us))))"
  proof (intro allI impI)
    fix i assume i: "i < length els"
    let ?k = "baseKeyword (tokens i) (els ! i)"
    from i have k: "?ks ! i = ?k" by simp
    from each i obtain m where m: "us ! i = candidate ?k m"
      "candidate ?k m \<notin> set (take i us)"
      "\<forall>j < m. candidate ?k j \<in> set (take i us)"
      unfolding k [symmetric] by auto
    have c0: "candidate ?k 0 = ?k" by (simp add: candidate_def)
    have a: "?k \<notin> set (take i us) \<longrightarrow> us ! i = ?k"
    proof
      assume n: "?k \<notin> set (take i us)"
      have "m = 0"
      proof (rule ccontr)
        assume "m \<noteq> 0"
        then have "0 < m" by simp
        with m(3) have "candidate ?k 0 \<in> set (take i us)" by blast
        with n c0 show False by simp
      qed
      with m(1) c0 show "us ! i = ?k" by simp
    qed
    have b: "?k \<in> set (take i us) \<longrightarrow>
                (\<exists>n. 1 \<le> n \<and> us ! i = ?k @ ''-'' @ showNat n
                     \<and> us ! i \<notin> set (take i us)
                     \<and> (\<forall>j. 1 \<le> j \<and> j < n \<longrightarrow> ?k @ ''-'' @ showNat j \<in> set (take i us)))"
    proof
      assume y: "?k \<in> set (take i us)"
      have m0: "m \<noteq> 0"
      proof
        assume "m = 0"
        with m(2) c0 y show False by simp
      qed
      then have "us ! i = ?k @ ''-'' @ showNat m" using m(1) by (simp add: candidate_def)
      moreover have "us ! i \<notin> set (take i us)" using m(1,2) by simp
      moreover have "\<forall>j. 1 \<le> j \<and> j < m \<longrightarrow> ?k @ ''-'' @ showNat j \<in> set (take i us)"
      proof (intro allI impI)
        fix j assume j: "1 \<le> j \<and> j < m"
        with m(3) have "candidate ?k j \<in> set (take i us)" by blast
        with j show "?k @ ''-'' @ showNat j \<in> set (take i us)" by (simp add: candidate_def)
      qed
      ultimately show "\<exists>n. 1 \<le> n \<and> us ! i = ?k @ ''-'' @ showNat n
                     \<and> us ! i \<notin> set (take i us)
                     \<and> (\<forall>j. 1 \<le> j \<and> j < n \<longrightarrow> ?k @ ''-'' @ showNat j \<in> set (take i us))"
        using m0 by (intro exI [of _ m]) simp
    qed
    from a b show "(?k \<notin> set (take i us) \<longrightarrow> us ! i = ?k)
           \<and> (?k \<in> set (take i us) \<longrightarrow>
                (\<exists>n. 1 \<le> n \<and> us ! i = ?k @ ''-'' @ showNat n
                     \<and> us ! i \<notin> set (take i us)
                     \<and> (\<forall>j. 1 \<le> j \<and> j < n \<longrightarrow> ?k @ ''-'' @ showNat j \<in> set (take i us))))"
      by blast
  qed
  from us have p: "pageKeywords tokens els = Some us" "length us = length els"
    by (simp_all add: pageKeywords_def)
  from p us(3) least
  have a: "\<exists>us. pageKeywords tokens els = Some us \<and> length us = length els \<and> distinct us
       \<and> (\<forall>i < length els.
             (baseKeyword (tokens i) (els ! i) \<notin> set (take i us) \<longrightarrow>
                us ! i = baseKeyword (tokens i) (els ! i))
           \<and> (baseKeyword (tokens i) (els ! i) \<in> set (take i us) \<longrightarrow>
                (\<exists>n. 1 \<le> n \<and> us ! i = baseKeyword (tokens i) (els ! i) @ ''-'' @ showNat n
                     \<and> us ! i \<notin> set (take i us)
                     \<and> (\<forall>j. 1 \<le> j \<and> j < n \<longrightarrow>
                           baseKeyword (tokens i) (els ! i) @ ''-'' @ showNat j \<in> set (take i us)))))"
    by blast
  have b: "(\<forall>el \<in> set els. rawKeyword el \<noteq> []) \<longrightarrow>
         pageKeywords tokens els = Some (numbered (map rawKeyword els))"
  proof
    assume r: "\<forall>el \<in> set els. rawKeyword el \<noteq> []"
    have "?ks = map rawKeyword els"
    proof (rule nth_equalityI)
      show "length ?ks = length (map rawKeyword els)" by simp
    next
      fix i assume "i < length ?ks"
      then have i: "i < length els" by simp
      with r have "rawKeyword (els ! i) \<noteq> []" by simp
      with i show "?ks ! i = map rawKeyword els ! i"
        by (simp add: baseKeyword_def orElse_def)
    qed
    moreover have "\<forall>k \<in> set (map rawKeyword els). CHR ''-'' \<notin> set k"
      using rawKeyword_no_hyphen by auto
    ultimately show "pageKeywords tokens els = Some (numbered (map rawKeyword els))"
      using annotate_numbered [of "map rawKeyword els"] by (simp add: pageKeywords_def)
  qed
  have "uniqueLoop [] (baseKeyword (tokens 0) el) (baseKeyword (tokens 0) el) 1
        = Some (baseKeyword (tokens 0) el)"
    by (subst uniqueLoop.simps) simp
  then have c: "pageKeywords tokens [el] = Some [baseKeyword (tokens 0) el]"
    by (simp add: pageKeywords_def makeUnique_def)
  from a b c show ?thesis by blast
qed

lemma sample_pageKeywords:
  "pageKeywords (\<lambda>i. ''k3x9'') [emailInput, namedA, emailInput, emailInput]
     = Some [''email'', ''a'', ''email-1'', ''email-2'']"
  by code_simp

theorem pageKeywords_unique_witness:
  "numbered (map rawKeyword [emailInput, namedA, emailInput, emailInput])
     = [''email'', ''a'', ''email-1'', ''email-2'']
   \<and> pageKeywords (\<lambda>i. ''k3x9'') [emailInput, namedA, emailInput, emailInput]
     = Some (numbered (map rawKeyword [emailInput, namedA, emailInput, emailInput]))
   \<and> baseKeyword ''k3x9'' ([emailInput, namedA, emailInput, emailInput] ! 2) = ''email''
   \<and> ''email'' \<in> set (take 2 [''email'', ''a'', ''email-1'', ''email-2''])
   \<and> [''email'', ''a'', ''email-1'', ''email-2''] ! 2 = ''email'' @ ''-'' @ showNat 1"
proof -
  have n: "numbered (map rawKeyword [emailInput, namedA, emailInput, emailInput])
     = [''email'', ''a'', ''email-1'', ''email-2'']"
    by code_simp
  have r: "\<forall>el \<in> set [emailInput, namedA, emailInput, emailInput]. rawKeyword el \<noteq> []"
    by code_simp
  have k: "baseKeyword ''k3x9'' ([emailInput, namedA, emailInput, emailInput] ! 2) = ''email''"
    by code_simp
  have s: "''email'' @ ''-'' @ showNat 1 = ''email-1''" by code_simp
  from pageKeywords_unique [of "\<lambda>i. ''k3x9''" "[emailInput, namedA, emailInput, emailInput]"] r n
  have "pageKeywords (\<lambda>i. ''k3x9'') [emailInput, namedA, emailInput, emailInput]
     = Some (numbered (map rawKeyword [emailInput, namedA, emailInput, emailInput]))"
    by simp
  with n k s show ?thesis by simp
qed

text \<open>
  The claim as stated fails in the annotation pass when a keyword with a random token has
  the form of a suffixed keyword. An anchor without attributes or text whose token is \<open>9\<close>
  (\<open>Math.random()\<close> returning 0.25) gets \<open>a-9\<close>; of ten later elements with the keyword \<open>a\<close>
  the first nine get \<open>a\<close>, \<open>a-1\<close>, ..., \<open>a-8\<close> and the tenth gets \<open>a-10\<close>, where the
  numbering of the claim has \<open>a-9\<close> a second time.
\<close>

theorem keywords_unique_counterexample:
  "pageKeywords (\<lambda>i. ''9'') (bareAnchor # replicate 10 namedA)
     = Some [''a-9'', ''a'', ''a-1'', ''a-2'', ''a-3'', ''a-4'', ''a-5'', ''a-6'', ''a-7'', ''a-8'',
             ''a-10'']
   \<and> numbered (map (baseKeyword ''9'') (bareAnchor # replicate 10 namedA))
     = [''a-9'', ''a'', ''a-1'', ''a-2'', ''a-3'', ''a-4'', ''a-5'', ''a-6'', ''a-7'', ''a-8'',
        ''a-9'']
   \<and> \<not> distinct (numbered (map (baseKeyword ''9'') (bareAnchor # replicate 10 namedA)))"
  by code_simp

text \<open>
  Not part of C6 as amended: the element index of \<open>SiteCrawlerExtension\<close> takes the keywords
  of \<open>generateElementKeyword\<close> as they come, although the function is documented as
  generating a unique keyword. Two inputs with the same name get the same keyword on one
  page.
\<close>

lemma extension_index_keeps_duplicates:
  "map primary (indexEntry (fst (indexAll samplePlatform ''home'' [emailInput, emailInput]
                  (openEntry ''home'' sampleExtCrawler))) ''home'') = [''email'', ''email'']"
  by code_simp

section \<open>What the steps of the crawlers change\<close>

lemma normalizeUrl_frame:
  "\<exists>r es. normalizeUrl P u base st = Inr (r, st\<lparr>errors := es\<rparr>)"
proof (cases "normalizeUrl_try P (config st) u base")
  case (Inl e)
  then have "normalizeUrl P u base st
    = Inr (None, st\<lparr>errors := errors st @ [''Error normalizing URL '' @ u @ '': '' @ message e]\<rparr>)"
    by (simp add: normalizeUrl_def)
  then show ?thesis by blast
next
  case (Inr s)
  then have "normalizeUrl P u base st = Inr (Some s, st\<lparr>errors := errors st\<rparr>)"
    by (simp add: normalizeUrl_def)
  then show ?thesis by blast
qed

lemma shouldCrawl_frame:
  "\<exists>b es. shouldCrawl P u st = Inr (b, st\<lparr>errors := es\<rparr>)"
proof (cases "shouldCrawl_try P st u")
  case (Inl e)
  then have "shouldCrawl P u st
    = Inr (False, st\<lparr>errors := errors st @ [''Error checking URL '' @ u @ '': '' @ message e]\<rparr>)"
    by (simp add: shouldCrawl_def)
  then show ?thesis by blast
next
  case (Inr b)
  then have "shouldCrawl P u st = Inr (b, st\<lparr>errors := errors st\<rparr>)"
    by (simp add: shouldCrawl_def)
  then show ?thesis by blast
qed

lemma shouldCrawl_True_unvisited:
  "shouldCrawl P u st = Inr (True, st') \<Longrightarrow> u \<notin> visitedUrls st \<and> st' = st"
  by (auto simp: shouldCrawl_def shouldCrawl_try_def split: sum.splits option.splits if_splits)

lemma storeNode_fields:
  "config (storeNode i n st) = config st" "startUrl (storeNode i n st) = startUrl st"
  "baseHostname (storeNode i n st) = baseHostname st" "edges (storeNode i n st) = edges st"
  "pagesVisited (storeNode i n st) = pagesVisited st"
  "visitedUrls (storeNode i n st) = visitedUrls st" "navigated (storeNode i n st) = navigated st"
  "urlQueue (storeNode i n st) = urlQueue st" "errors (storeNode i n st) = errors st"
  "crawler.more (storeNode i n st) = crawler.more st"
  by (simp_all add: storeNode_def)

lemma putNode_fields:
  "config (putNode i u m st) = config st" "startUrl (putNode i u m st) = startUrl st"
  "baseHostname (putNode i u m st) = baseHostname st" "edges (putNode i u m st) = edges st"
  "pagesVisited (putNode i u m st) = pagesVisited st"
  "visitedUrls (putNode i u m st) = visitedUrls st" "navigated (putNode i u m st) = navigated st"
  "urlQueue (putNode i u m st) = urlQueue st" "errors (putNode i u m st) = errors st"
  by (simp_all add: putNode_def storeNode_fields split: found.splits)

lemma putNode_ext_fields:
  "config (putNode_ext i u pd st) = config st" "startUrl (putNode_ext i u pd st) = startUrl st"
  "baseHostname (putNode_ext i u pd st) = baseHostname st"
  "pagesVisited (putNode_ext i u pd st) = pagesVisited st"
  "visitedUrls (putNode_ext i u pd st) = visitedUrls st"
  "navigated (putNode_ext i u pd st) = navigated st"
  "urlQueue (putNode_ext i u pd st) = urlQueue st"
  "crawlInProgress (putNode_ext i u pd st) = crawlInProgress st"
  "completeReported (putNode_ext i u pd st) = completeReported st"
  by (simp_all add: putNode_ext_def storeNode_def split: found.splits)

lemma keeps_refl: "keeps st st"
  by (simp add: keeps_def)

lemma keeps_trans: "keeps a b \<Longrightarrow> keeps b c \<Longrightarrow> keeps a c"
  by (simp add: keeps_def)

lemma processLink_frame:
  assumes "processLink P u depth nodeId t l st = (st', e)"
  shows "keeps st st' \<and> (\<exists>ps. urlQueue st' = urlQueue st @ ps \<and> (\<forall>x \<in> set ps. snd x = depth + 1))"
proof (cases l)
  case (ButtonItem bt bs)
  with assms have "st' = addButtonState nodeId u t bt bs st" by (simp add: processLink_def)
  then show ?thesis by (simp add: addButtonState_def storeNode_fields Let_def keeps_def)
next
  case (Link lurl ltext lsel)
  show ?thesis
  proof (cases "lurl = []")
    case True
    with Link assms show ?thesis by (simp add: processLink_def keeps_refl)
  next
    case False
    from normalizeUrl_frame [of P lurl u st] obtain r es where
      n: "normalizeUrl P lurl u st = Inr (r, st\<lparr>errors := es\<rparr>)" by blast
    let ?s1 = "st\<lparr>errors := es\<rparr>"
    have k1: "keeps st ?s1" "urlQueue ?s1 = urlQueue st"
      by (simp_all add: keeps_def)
    show ?thesis
    proof (cases "r = None \<or> r = Some []")
      case True
      with Link False n assms have "st' = ?s1" by (auto simp: processLink_def)
      with k1 show ?thesis by simp
    next
      case False
      then obtain nu where r: "r = Some nu" "nu \<noteq> []" by auto
      from shouldCrawl_frame [of P nu ?s1] obtain b es2 where
        s: "shouldCrawl P nu ?s1 = Inr (b, ?s1\<lparr>errors := es2\<rparr>)" by blast
      let ?s2 = "?s1\<lparr>errors := es2\<rparr>"
      have k2: "keeps st ?s2" "urlQueue ?s2 = urlQueue st"
        by (simp_all add: keeps_def)
      show ?thesis
      proof (cases b)
        case False
        with Link \<open>lurl \<noteq> []\<close> n r s assms have "st' = ?s2" by (simp add: processLink_def)
        with k2 show ?thesis by simp
      next
        case True
        show ?thesis
        proof (cases "addEdge P u nu \<lparr>em_type = ''link'', em_text = ltext, em_selector = lsel\<rparr> ?s2")
          case (Inl x)
          with True Link \<open>lurl \<noteq> []\<close> n r s assms have "st' = ?s2" by (simp add: processLink_def)
          with k2 show ?thesis by simp
        next
          case (Inr s3)
          then have s3: "keeps ?s2 s3" "urlQueue s3 = urlQueue st"
            by (auto simp: addEdge_def keeps_def split: sum.splits)
          from Inr True Link \<open>lurl \<noteq> []\<close> n r s assms
          have "st' = s3\<lparr>urlQueue := urlQueue s3 @ [(nu, depth + 1)]\<rparr>"
            by (simp add: processLink_def)
          with s3 k2(1) show ?thesis by (simp add: keeps_def)
        qed
      qed
    qed
  qed
qed

lemma processLinks_frame:
  "processLinks P u depth nodeId t ls st = (st', e) \<Longrightarrow>
     keeps st st' \<and> (\<exists>ps. urlQueue st' = urlQueue st @ ps \<and> (\<forall>x \<in> set ps. snd x = depth + 1))"
proof (induction ls arbitrary: st)
  case Nil
  then show ?case by (simp add: keeps_refl)
next
  case (Cons l ls)
  obtain s1 e1 where l: "processLink P u depth nodeId t l st = (s1, e1)"
    by (cases "processLink P u depth nodeId t l st")
  from processLink_frame [OF l] obtain p1 where
    f1: "keeps st s1" "urlQueue s1 = urlQueue st @ p1" "\<forall>x \<in> set p1. snd x = depth + 1" by blast
  show ?case
  proof (cases e1)
    case (Some x)
    with l Cons.prems have "st' = s1" by simp
    with f1 show ?thesis by blast
  next
    case None
    with l Cons.prems have "processLinks P u depth nodeId t ls s1 = (st', e)" by simp
    from Cons.IH [OF this] obtain p2 where
      f2: "keeps s1 st'" "urlQueue st' = urlQueue s1 @ p2" "\<forall>x \<in> set p2. snd x = depth + 1" by blast
    from f1 f2 have "urlQueue st' = urlQueue st @ (p1 @ p2)" "\<forall>x \<in> set (p1 @ p2). snd x = depth + 1"
      by auto
    with keeps_trans [OF f1(1) f2(1)] show ?thesis by blast
  qed
qed

text \<open>The outcome of one call of \<open>crawlPage\<close>.\<close>

lemma crawlPage_try_frame:
  assumes "crawlPage_try P B u depth st = (st', e)"
  shows "config st' = config st \<and> startUrl st' = startUrl st \<and> baseHostname st' = baseHostname st
     \<and> visitedUrls st' = visitedUrls st \<and> navigated st' = navigated st @ [u]
     \<and> (pagesVisited st' = pagesVisited st \<or> pagesVisited st' = pagesVisited st + 1)
     \<and> (\<exists>ps. urlQueue st' = urlQueue st @ ps \<and> (\<forall>x \<in> set ps. snd x = depth + 1))"
proof (cases "B (length (navigated st)) u")
  case (NavFails msg)
  with assms have "st' = st\<lparr>navigated := navigated st @ [u]\<rparr>"
    by (simp add: crawlPage_try_def Let_def)
  then show ?thesis by simp
next
  case (NavOk page)
  let ?s0 = "st\<lparr>navigated := navigated st @ [u]\<rparr>"
  obtain m s1 where m: "extractPageMetadata P page u ?s0 = (m, s1)"
    by (cases "extractPageMetadata P page u ?s0")
  then have s1: "keeps ?s0 s1" "urlQueue s1 = urlQueue st"
    by (auto simp: extractPageMetadata_def keeps_def split: sum.splits)
  show ?thesis
  proof (cases "addNode P u m s1")
    case (Inl x)
    with NavOk m assms have "st' = s1" by (simp add: crawlPage_try_def Let_def)
    with s1 show ?thesis by (simp add: keeps_def)
  next
    case (Inr r)
    then obtain nodeId s2 where r: "r = (nodeId, s2)" by (cases r)
    with Inr have s2: "keeps s1 s2" "urlQueue s2 = urlQueue s1"
      by (auto simp: addNode_def putNode_fields keeps_def split: sum.splits)
    obtain links s3 where l: "extractLinks page u s2 = (links, s3)"
      by (cases "extractLinks page u s2")
    then have s3: "keeps s2 s3" "urlQueue s3 = urlQueue s2"
      by (auto simp: extractLinks_def keeps_def split: option.splits)
    let ?s3 = "s3\<lparr>linksFound := linksFound s3 + length links\<rparr>"
    obtain s4 e4 where p: "processLinks P u depth nodeId (mtitle m) links ?s3 = (s4, e4)"
      by (cases "processLinks P u depth nodeId (mtitle m) links ?s3")
    from processLinks_frame [OF p] obtain ps where
      s4: "keeps ?s3 s4" "urlQueue s4 = urlQueue ?s3 @ ps" "\<forall>x \<in> set ps. snd x = depth + 1"
      by blast
    from s1 s2 s3 s4 have k: "config s4 = config st" "startUrl s4 = startUrl st"
      "baseHostname s4 = baseHostname st" "visitedUrls s4 = visitedUrls st"
      "navigated s4 = navigated st @ [u]" "pagesVisited s4 = pagesVisited st"
      "urlQueue s4 = urlQueue st @ ps"
      by (simp_all add: keeps_def)
    from NavOk m Inr r l p assms
    have "st' = s4 \<or> st' = s4\<lparr>pagesVisited := pagesVisited s4 + 1\<rparr>"
      by (cases e4) (simp_all add: crawlPage_try_def Let_def)
    with k s4(3) show ?thesis by auto
  qed
qed

lemma crawlPage_cases:
  "\<exists>st'. crawlPage P B u depth st = Inr st'
     \<and> config st' = config st \<and> startUrl st' = startUrl st \<and> baseHostname st' = baseHostname st
     \<and> ((urlQueue st' = urlQueue st \<and> pagesVisited st' = pagesVisited st
          \<and> visitedUrls st' = visitedUrls st \<and> navigated st' = navigated st)
        \<or> (depth \<le> maxDepth (config st) \<and> pagesVisited st < maxPages (config st)
            \<and> u \<notin> visitedUrls st
            \<and> visitedUrls st' = insert u (visitedUrls st) \<and> navigated st' = navigated st @ [u]
            \<and> (pagesVisited st' = pagesVisited st \<or> pagesVisited st' = pagesVisited st + 1)
            \<and> (\<exists>ps. urlQueue st' = urlQueue st @ ps \<and> (\<forall>x \<in> set ps. snd x = depth + 1))))"
proof -
  from shouldCrawl_frame [of P u st] obtain ok es where
    s: "shouldCrawl P u st = Inr (ok, st\<lparr>errors := es\<rparr>)" by blast
  let ?s1 = "st\<lparr>errors := es\<rparr>"
  show ?thesis
  proof (cases "\<not> ok \<or> depth > maxDepth (config st) \<or> pagesVisited st \<ge> maxPages (config st)")
    case True
    with s have "crawlPage P B u depth st = Inr ?s1" by (auto simp: crawlPage_def)
    then show ?thesis by simp
  next
    case False
    then have ok: ok by simp
    with s shouldCrawl_True_unvisited [of P u st "?s1"] have unv: "u \<notin> visitedUrls st" by simp
    let ?s2 = "?s1\<lparr>visitedUrls := insert u (visitedUrls ?s1)\<rparr>"
    obtain s3 e where t: "crawlPage_try P B u depth ?s2 = (s3, e)"
      by (cases "crawlPage_try P B u depth ?s2")
    note f = crawlPage_try_frame [OF t]
    from s False t have "crawlPage P B u depth st = Inr s3
        \<or> crawlPage P B u depth st
           = Inr (s3\<lparr>errors := errors s3 @ [''Error crawling '' @ u @ '': '' @ message (the e)]\<rparr>)"
      by (cases e) (auto simp: crawlPage_def)
    with f False unv show ?thesis by auto
  qed
qed

lemma keeps_ext_refl: "keeps_ext st st"
  by (simp add: keeps_ext_def keeps_refl)

lemma keeps_ext_trans: "keeps_ext a b \<Longrightarrow> keeps_ext b c \<Longrightarrow> keeps_ext a c"
  by (auto simp: keeps_ext_def intro: keeps_trans)

lemma getNodeId_ext_keeps: "getNodeId_ext P u st = (i, st') \<Longrightarrow> keeps_ext st st'"
  by (auto simp: getNodeId_ext_def logError_def keeps_ext_def keeps_def split: sum.splits)

lemma addNode_ext_keeps: "addNode_ext P u pd st = (i, st') \<Longrightarrow> keeps_ext st st'"
proof -
  assume a: "addNode_ext P u pd st = (i, st')"
  obtain k s1 where g: "getNodeId_ext P u st = (k, s1)" by (cases "getNodeId_ext P u st")
  with a have "st' = putNode_ext k u pd s1" by (auto simp: addNode_ext_def)
  then have "keeps_ext s1 st'" by (simp add: keeps_ext_def keeps_def putNode_ext_fields)
  with getNodeId_ext_keeps [OF g] show ?thesis by (rule keeps_ext_trans)
qed

lemma addEdge_ext_keeps: "keeps_ext st (addEdge_ext P f t m st)"
  by (auto simp: addEdge_ext_def getNodeId_ext_def logError_def keeps_ext_def keeps_def
      split: sum.splits prod.splits)

lemma indexElement_keeps: "keeps_ext st (fst (indexElement P k el st))"
  by (simp add: indexElement_def Let_def keeps_ext_def keeps_def split: option.splits)

lemma indexAll_keeps: "keeps_ext st (fst (indexAll P k els st))"
proof (induction els arbitrary: st)
  case Nil
  show ?case by (simp add: keeps_ext_refl)
next
  case (Cons el els)
  obtain s1 e1 where i: "indexElement P k el st = (s1, e1)" by (cases "indexElement P k el st")
  from indexElement_keeps [of st P k el] i have k1: "keeps_ext st s1" by simp
  show ?case
  proof (cases e1)
    case (Some x)
    with i k1 show ?thesis by simp
  next
    case None
    with i have "fst (indexAll P k (el # els) st) = fst (indexAll P k els s1)" by simp
    with keeps_ext_trans [OF k1 Cons.IH [of s1]] show ?thesis by simp
  qed
qed

lemma fold_keeps:
  "(\<And>x s. keeps_ext s (f x s)) \<Longrightarrow> keeps_ext st (fold f xs st)"
proof (induction xs arbitrary: st)
  case Nil
  show ?case by (simp add: keeps_ext_refl)
next
  case (Cons x xs)
  from Cons.prems have "keeps_ext st (f x st)" by blast
  moreover from Cons have "keeps_ext (f x st) (fold f xs (f x st))" by blast
  ultimately show ?case using keeps_ext_trans by auto
qed

lemma openEntry_keeps: "keeps_ext st (openEntry k st)"
  by (simp add: openEntry_def keeps_ext_def keeps_def)

lemma indexElements_keeps: "indexElements P M u pd st = (st', e) \<Longrightarrow> keeps_ext st st'"
proof -
  assume a: "indexElements P M u pd st = (st', e)"
  obtain k s1 where g: "getNodeId_ext P u st = (k, s1)" by (cases "getNodeId_ext P u st")
  note k1 = getNodeId_ext_keeps [OF g]
  let ?r = "indexAll P k (pd_interactiveElements pd) (openEntry k s1)"
  have k2: "keeps_ext s1 (fst ?r)"
    using keeps_ext_trans [OF openEntry_keeps indexAll_keeps] .
  from a g have "st' = st \<or> st' = s1 \<or> st' = fst ?r"
    by (auto simp: indexElements_def split: if_splits sum.splits prod.splits option.splits)
  then consider "st' = st" | "st' = s1" | "st' = fst ?r" by blast
  then show ?thesis
  proof cases
    case 1 then show ?thesis by (simp add: keeps_ext_refl)
  next
    case 2 with k1 show ?thesis by simp
  next
    case 3 with keeps_ext_trans [OF k1 k2] show ?thesis by simp
  qed
qed

lemma indexButtons_keeps: "keeps_ext st (fst (indexButtons P u pd st))"
proof -
  obtain k s1 where g: "getNodeId_ext P u st = (k, s1)" by (cases "getNodeId_ext P u st")
  note k1 = getNodeId_ext_keeps [OF g]
  let ?r = "indexAll P k (map buttonElement (extractedButtons pd)) (openEntry k s1)"
  have k2: "keeps_ext s1 (fst ?r)"
    using keeps_ext_trans [OF openEntry_keeps indexAll_keeps] .
  from g have "indexButtons P u pd st = (st, None) \<or> indexButtons P u pd st = ?r"
    by (auto simp: indexButtons_def)
  then show ?thesis
  proof
    assume "indexButtons P u pd st = (st, None)" then show ?thesis by (simp add: keeps_ext_refl)
  next
    assume "indexButtons P u pd st = ?r"
    with keeps_ext_trans [OF k1 k2] show ?thesis by simp
  qed
qed

lemma addButtonState_keeps: "keeps_ext st (addButtonState n u t bt bs st)"
  by (simp add: addButtonState_def storeNode_def Let_def keeps_ext_def keeps_def)

lemma captureButtons_keeps: "keeps_ext st (captureButtons P u pd st)"
proof -
  obtain k s1 where g: "getNodeId_ext P u st = (k, s1)" by (cases "getNodeId_ext P u st")
  note k1 = getNodeId_ext_keeps [OF g]
  have k2: "keeps_ext s1 (fold (\<lambda>b. addButtonState k u (mtitle (pd_meta pd)) (xb_text b) (xb_selector b))
               (extractedButtons pd) s1)"
    by (rule fold_keeps) (rule addButtonState_keeps)
  from g have "captureButtons P u pd st = st
     \<or> captureButtons P u pd st
        = fold (\<lambda>b. addButtonState k u (mtitle (pd_meta pd)) (xb_text b) (xb_selector b))
               (extractedButtons pd) s1"
    by (auto simp: captureButtons_def)
  then show ?thesis
  proof
    assume "captureButtons P u pd st = st" then show ?thesis by (simp add: keeps_ext_refl)
  next
    assume "captureButtons P u pd st
        = fold (\<lambda>b. addButtonState k u (mtitle (pd_meta pd)) (xb_text b) (xb_selector b))
               (extractedButtons pd) s1"
    with keeps_ext_trans [OF k1 k2] show ?thesis by simp
  qed
qed

lemma keeps_ext_pushes: "keeps_ext st st' \<Longrightarrow> pushes_within st st'"
  by (simp add: keeps_ext_def pushes_within_def)

lemma pushes_within_trans:
  assumes "pushes_within a b" "pushes_within b c"
  shows "pushes_within a c"
proof -
  from assms(1) obtain p1 where
    1: "keeps a b" "urlQueue b = urlQueue a @ p1" "\<forall>x \<in> set p1. 0 < snd x \<and> snd x \<le> maxDepth (config a)"
       "crawlInProgress b = crawlInProgress a" "completeReported b = completeReported a"
    by (auto simp: pushes_within_def)
  from assms(2) obtain p2 where
    2: "keeps b c" "urlQueue c = urlQueue b @ p2" "\<forall>x \<in> set p2. 0 < snd x \<and> snd x \<le> maxDepth (config b)"
       "crawlInProgress c = crawlInProgress b" "completeReported c = completeReported b"
    by (auto simp: pushes_within_def)
  from 1(1) have "config b = config a" by (simp add: keeps_def)
  with 1 2 have "urlQueue c = urlQueue a @ (p1 @ p2)"
    "\<forall>x \<in> set (p1 @ p2). 0 < snd x \<and> snd x \<le> maxDepth (config a)" by auto
  with keeps_trans [OF 1(1) 2(1)] 1(4,5) 2(4,5) show ?thesis
    unfolding pushes_within_def by metis
qed

lemma enqueueLink_pushes:
  assumes "enqueueLink P u l st = (st', e)"
  shows "pushes_within st st'"
proof -
  from normalizeUrl_frame [of P "xl_url l" u st] obtain r es where
    n: "normalizeUrl P (xl_url l) u st = Inr (r, st\<lparr>errors := es\<rparr>)" by blast
  let ?s1 = "st\<lparr>errors := es\<rparr>"
  have k1: "keeps_ext st ?s1" by (simp add: keeps_ext_def keeps_def)
  show ?thesis
  proof (cases "r = None \<or> r = Some []")
    case True
    with n assms have "st' = ?s1" by (auto simp: enqueueLink_def)
    with k1 show ?thesis by (simp add: keeps_ext_pushes)
  next
    case False
    then obtain nu where r: "r = Some nu" "nu \<noteq> []" by auto
    from shouldCrawl_frame [of P nu ?s1] obtain b es2 where
      s: "shouldCrawl P nu ?s1 = Inr (b, ?s1\<lparr>errors := es2\<rparr>)" by blast
    let ?s2 = "?s1\<lparr>errors := es2\<rparr>"
    have k2: "keeps_ext st ?s2" by (simp add: keeps_ext_def keeps_def)
    show ?thesis
    proof (cases b)
      case False
      with n r s assms have "st' = ?s2" by (simp add: enqueueLink_def)
      with k2 show ?thesis by (simp add: keeps_ext_pushes)
    next
      case True
      let ?s3 = "addEdge_ext P u nu \<lparr>em_type = ''link'', em_text = xl_text l, em_selector = xl_selector l\<rparr> ?s2"
      have k3: "keeps_ext st ?s3" using keeps_ext_trans [OF k2 addEdge_ext_keeps] .
      show ?thesis
      proof (cases "getDepthForUrl ?s3 u < maxDepth (config ?s3)")
        case False
        with True n r s assms have "st' = ?s3" by (simp add: enqueueLink_def Let_def)
        with k3 show ?thesis by (simp add: keeps_ext_pushes)
      next
        case d: True
        with True n r s assms
        have "st' = ?s3\<lparr>urlQueue := urlQueue ?s3 @ [(nu, getDepthForUrl ?s3 u + 1)]\<rparr>"
          by (simp add: enqueueLink_def Let_def)
        moreover from k3 have "config ?s3 = config st" by (simp add: keeps_ext_def keeps_def)
        ultimately show ?thesis using k3 d
          by (simp add: pushes_within_def keeps_ext_def keeps_def)
      qed
    qed
  qed
qed

lemma enqueueLinks_pushes:
  "enqueueLinks P u ls st = (st', e) \<Longrightarrow> pushes_within st st'"
proof (induction ls arbitrary: st)
  case Nil
  then show ?case by (simp add: keeps_ext_pushes keeps_ext_refl)
next
  case (Cons l ls)
  obtain s1 e1 where l: "enqueueLink P u l st = (s1, e1)" by (cases "enqueueLink P u l st")
  note f1 = enqueueLink_pushes [OF l]
  show ?case
  proof (cases e1)
    case (Some x)
    with l Cons.prems have "st' = s1" by simp
    with f1 show ?thesis by simp
  next
    case None
    with l Cons.prems have "enqueueLinks P u ls s1 = (st', e)" by simp
    from pushes_within_trans [OF f1 Cons.IH [OF this]] show ?thesis .
  qed
qed

lemma processExtractedLinks_pushes:
  assumes "processExtractedLinks P u pd st = (st', e)"
  shows "pushes_within st st'"
proof (cases "extractedLinks pd = []")
  case True
  with assms show ?thesis by (simp add: processExtractedLinks_def keeps_ext_pushes keeps_ext_refl)
next
  case False
  let ?s = "st\<lparr>linksFound := linksFound st + length (extractedLinks pd)\<rparr>"
  have "keeps_ext st ?s" by (simp add: keeps_ext_def keeps_def)
  moreover from False assms have "pushes_within ?s st'"
    using enqueueLinks_pushes [of P u "extractedLinks pd" ?s st' e]
    by (simp add: processExtractedLinks_def)
  ultimately show ?thesis using pushes_within_trans keeps_ext_pushes by blast
qed

text \<open>The outcome of \<open>processPageData\<close>.\<close>

lemma logError_keeps: "keeps_ext s (logError msg s)"
  by (simp add: logError_def keeps_ext_def keeps_def)

lemma processPageData_cases:
  "(keeps_ext st (processPageData P M u pdo st))
   \<or> pushes_within (st\<lparr>visitedUrls := insert u (visitedUrls st),
                        pagesVisited := pagesVisited st + 1\<rparr>)
        (processPageData P M u pdo st)"
proof -
  obtain s e where t: "processPageData_try P M u pdo st = (s, e)"
    by (cases "processPageData_try P M u pdo st")
  have r: "keeps_ext s (processPageData P M u pdo st)"
  proof (cases e)
    case None
    with t show ?thesis by (simp add: processPageData_def keeps_ext_refl)
  next
    case (Some x)
    with t show ?thesis by (simp add: processPageData_def logError_keeps)
  qed
  show ?thesis
  proof (cases "pdo = None \<or> (\<exists>pd x. pdo = Some pd \<and> inferPageType M pd = Inl x)")
    case True
    with t have "s = st" by (auto simp: processPageData_try_def split: option.splits)
    with r show ?thesis by simp
  next
    case False
    then obtain pd y where pd: "pdo = Some pd" "inferPageType M pd = Inr y"
      by (cases pdo; cases "inferPageType M (the pdo)") auto
    obtain i s1 where a: "addNode_ext P u pd st = (i, s1)" by (cases "addNode_ext P u pd st")
    note k1 = addNode_ext_keeps [OF a]
    let ?v = "\<lambda>x::ext_crawler. x\<lparr>visitedUrls := insert u (visitedUrls x), pagesVisited := pagesVisited x + 1\<rparr>"
    have kv: "keeps_ext (?v st) (?v s1)" using k1 by (simp add: keeps_ext_def keeps_def)
    obtain s2 e2 where ie: "indexElements P M u pd (?v s1) = (s2, e2)"
      by (cases "indexElements P M u pd (?v s1)")
    note k2 = keeps_ext_trans [OF kv indexElements_keeps [OF ie]]
    have "pushes_within (?v st) s"
    proof (cases e2)
      case (Some x)
      with t pd a ie have "s = s2" by (simp add: processPageData_try_def)
      with k2 show ?thesis by (simp add: keeps_ext_pushes)
    next
      case None
      obtain sb eb where ib: "indexButtons P u pd s2 = (sb, eb)"
        by (cases "indexButtons P u pd s2")
      from indexButtons_keeps [of s2 P u pd] ib have "keeps_ext s2 sb" by simp
      note kb = keeps_ext_trans [OF k2 this]
      show ?thesis
      proof (cases eb)
        case (Some x)
        with t pd a ie None ib have "s = sb" by (simp add: processPageData_try_def)
        with kb show ?thesis by (simp add: keeps_ext_pushes)
      next
        case nb: None
        obtain s3 e3 where pl: "processExtractedLinks P u pd sb = (s3, e3)"
          by (cases "processExtractedLinks P u pd sb")
        have k3: "pushes_within (?v st) s3"
          using pushes_within_trans [OF keeps_ext_pushes [OF kb]
              processExtractedLinks_pushes [OF pl]] .
        from t pd a ie None ib nb pl have "s = s3 \<or> s = captureButtons P u pd s3"
          by (cases e3) (simp_all add: processPageData_try_def)
        then show ?thesis
          using k3 pushes_within_trans [OF k3 keeps_ext_pushes [OF captureButtons_keeps]] by auto
      qed
    qed
    from pushes_within_trans [OF this keeps_ext_pushes [OF r]] show ?thesis by simp
  qed
qed

section \<open>The scheduler of \<open>SiteCrawler\<close>\<close>

lemma crawlStep_cases:
  assumes "urlQueue st = entry # rest"
  shows "\<exists>st'. crawlStep P B st = Inr st'
     \<and> config st' = config st \<and> startUrl st' = startUrl st \<and> baseHostname st' = baseHostname st
     \<and> ((urlQueue st' = rest \<and> pagesVisited st' = pagesVisited st
          \<and> visitedUrls st' = visitedUrls st \<and> navigated st' = navigated st)
        \<or> (snd entry \<le> maxDepth (config st) \<and> pagesVisited st < maxPages (config st)
            \<and> fst entry \<notin> visitedUrls st
            \<and> visitedUrls st' = insert (fst entry) (visitedUrls st)
            \<and> navigated st' = navigated st @ [fst entry]
            \<and> (pagesVisited st' = pagesVisited st \<or> pagesVisited st' = pagesVisited st + 1)
            \<and> (\<exists>ps. urlQueue st' = rest @ ps \<and> (\<forall>x \<in> set ps. snd x = snd entry + 1))))"
  using crawlPage_cases [of P B "fst entry" "snd entry" "st\<lparr>urlQueue := rest\<rparr>"] assms
  by (simp add: crawlStep_def)

text \<open>Invariants of the loop.\<close>

lemma crawlSteps_invariants:
  "crawlSteps n P B st = Inr st' \<Longrightarrow>
     config st' = config st
     \<and> (pagesVisited st \<le> maxPages (config st) \<longrightarrow> pagesVisited st' \<le> maxPages (config st))
     \<and> (distinct (navigated st) \<and> set (navigated st) \<subseteq> visitedUrls st \<longrightarrow>
          distinct (navigated st') \<and> set (navigated st') \<subseteq> visitedUrls st')
     \<and> ((\<forall>x \<in> set (urlQueue st). snd x \<le> maxDepth (config st) + 1) \<longrightarrow>
          (\<forall>x \<in> set (urlQueue st'). snd x \<le> maxDepth (config st) + 1))"
proof (induction n arbitrary: st)
  case 0
  then show ?case by simp
next
  case (Suc n)
  show ?case
  proof (cases "running st")
    case False
    with Suc.prems show ?thesis by simp
  next
    case True
    then obtain entry rest where q: "urlQueue st = entry # rest"
      by (cases "urlQueue st") (auto simp: running_def)
    from crawlStep_cases [OF q, of P B] obtain s1 where
      s1: "crawlStep P B st = Inr s1" "config s1 = config st"
      and c: "(urlQueue s1 = rest \<and> pagesVisited s1 = pagesVisited st
          \<and> visitedUrls s1 = visitedUrls st \<and> navigated s1 = navigated st)
        \<or> (snd entry \<le> maxDepth (config st) \<and> pagesVisited st < maxPages (config st)
            \<and> fst entry \<notin> visitedUrls st
            \<and> visitedUrls s1 = insert (fst entry) (visitedUrls st)
            \<and> navigated s1 = navigated st @ [fst entry]
            \<and> (pagesVisited s1 = pagesVisited st \<or> pagesVisited s1 = pagesVisited st + 1)
            \<and> (\<exists>ps. urlQueue s1 = rest @ ps \<and> (\<forall>x \<in> set ps. snd x = snd entry + 1)))"
      by blast
    from True s1 Suc.prems have r: "crawlSteps n P B s1 = Inr st'" by simp
    note ih = Suc.IH [OF r]
    have a: "pagesVisited st \<le> maxPages (config st) \<longrightarrow> pagesVisited s1 \<le> maxPages (config st)"
      using c by auto
    have b: "distinct (navigated st) \<and> set (navigated st) \<subseteq> visitedUrls st \<longrightarrow>
          distinct (navigated s1) \<and> set (navigated s1) \<subseteq> visitedUrls s1"
      using c by auto
    have d: "(\<forall>x \<in> set (urlQueue st). snd x \<le> maxDepth (config st) + 1) \<longrightarrow>
          (\<forall>x \<in> set (urlQueue s1). snd x \<le> maxDepth (config st) + 1)"
      using c q by fastforce
    from ih a b d s1(2) show ?thesis by simp
  qed
qed

lemma crawlStep_decreases:
  assumes "urlQueue st = entry # rest" "crawlStep P B st = Inr st'"
  shows "(slack st', slack st) \<in> mult less_than"
proof -
  let ?w = "\<lambda>x::string \<times> nat. maxDepth (config st) + 1 - snd x"
  from crawlStep_cases [OF assms(1), of P B] assms(2)
  have c: "config st' = config st"
    and d: "urlQueue st' = rest
        \<or> (snd entry \<le> maxDepth (config st)
            \<and> (\<exists>ps. urlQueue st' = rest @ ps \<and> (\<forall>x \<in> set ps. snd x = snd entry + 1)))"
    by auto
  from d obtain ps where ps: "urlQueue st' = rest @ ps"
    "\<forall>x \<in> set ps. snd x = snd entry + 1 \<and> snd entry \<le> maxDepth (config st)"
    by (cases "urlQueue st' = rest") auto
  have "(mset (map ?w rest) + mset (map ?w ps), mset (map ?w rest) + {#?w entry#}) \<in> mult less_than"
  proof (rule one_step_implies_mult)
    show "{#?w entry#} \<noteq> {#}" by simp
    show "\<forall>k \<in># mset (map ?w ps). \<exists>j \<in># {#?w entry#}. (k, j) \<in> less_than"
      using ps(2) by auto
  qed
  with c ps(1) assms(1) show ?thesis by (simp add: slack_def)
qed

lemma crawlLoop_terminates:
  "\<exists>n r. crawlLoop P B st = Some (Inr r) \<and> crawlSteps n P B st = Inr r \<and> \<not> running r"
proof (induction st rule: wf_induct_rule [OF wf_inv_image [OF wf_mult [OF wf_less_than], of slack]])
  case (1 st)
  show ?case
  proof (cases "running st")
    case False
    then have "crawlLoop P B st = Some (Inr st)" "crawlSteps 0 P B st = Inr st"
      by (simp_all add: crawlLoop.simps)
    with False show ?thesis by blast
  next
    case True
    then obtain entry rest where q: "urlQueue st = entry # rest"
      by (cases "urlQueue st") (auto simp: running_def)
    from crawlStep_cases [OF q, of P B] obtain s1 where s1: "crawlStep P B st = Inr s1" by blast
    from crawlStep_decreases [OF q s1] have "(s1, st) \<in> inv_image (mult less_than) slack" by simp
    from 1 [OF this] obtain n r where
      r: "crawlLoop P B s1 = Some (Inr r)" "crawlSteps n P B s1 = Inr r" "\<not> running r" by blast
    from True s1 r(1) have "crawlLoop P B st = Some (Inr r)" by (subst crawlLoop.simps) simp
    moreover from True s1 r(2) have "crawlSteps (Suc n) P B st = Inr r" by simp
    ultimately show ?thesis using r(3) by blast
  qed
qed

section \<open>The scheduler of \<open>SiteCrawlerExtension\<close>\<close>

lemma round_of_quiet:
  "config st' = config st \<Longrightarrow> startUrl st' = startUrl st \<Longrightarrow>
   (crawlInProgress st' \<longrightarrow> crawlInProgress st) \<Longrightarrow> completeReported st' = completeReported st \<Longrightarrow>
   (\<not> cont \<longrightarrow> \<not> crawlInProgress st') \<Longrightarrow> urlQueue st' = q \<Longrightarrow> pagesVisited st' = pagesVisited st \<Longrightarrow>
   round_of st q st' cont"
  by (simp add: round_of_def)

lemma logError_fields:
  "config (logError msg s) = config s" "startUrl (logError msg s) = startUrl s"
  "crawlInProgress (logError msg s) = crawlInProgress s"
  "completeReported (logError msg s) = completeReported s"
  "urlQueue (logError msg s) = urlQueue s" "pagesVisited (logError msg s) = pagesVisited s"
  by (simp_all add: logError_def)

lemma crawlUrl_cases:
  "\<exists>st' cont. crawlUrl P M T u st = Inr (st', cont) \<and> round_of st (urlQueue st) st' cont"
proof -
  from shouldCrawl_frame [of P u st] obtain ok es where
    s: "shouldCrawl P u st = Inr (ok, st\<lparr>errors := es\<rparr>)" by blast
  define s1 where "s1 = st\<lparr>errors := es\<rparr>"
  have k1: "config s1 = config st" "startUrl s1 = startUrl st"
    "crawlInProgress s1 = crawlInProgress st" "completeReported s1 = completeReported st"
    "urlQueue s1 = urlQueue st" "pagesVisited s1 = pagesVisited st"
    by (simp_all add: s1_def)
  from s have s': "shouldCrawl P u st = Inr (ok, s1)" by (simp add: s1_def)
  show ?thesis
  proof (cases ok)
    case False
    with s' have "crawlUrl P M T u st = Inr (s1, True)" by (simp add: crawlUrl_def)
    moreover have "round_of st (urlQueue st) s1 True" using k1 by (simp add: round_of_def)
    ultimately show ?thesis by blast
  next
    case True
    obtain outcome stopped where t: "T (length (navigated s1)) u = (outcome, stopped)"
      by (cases "T (length (navigated s1)) u")
    define s2 where "s2 = s1\<lparr>navigated := navigated s1 @ [u]\<rparr>"
    define s3 where "s3 = (if stopped then stopCrawl s2 else s2)"
    have k3: "config s3 = config st" "startUrl s3 = startUrl st"
      "crawlInProgress s3 \<longrightarrow> crawlInProgress st" "completeReported s3 = completeReported st"
      "urlQueue s3 = urlQueue st" "pagesVisited s3 = pagesVisited st"
      using k1 by (simp_all add: s3_def s2_def stopCrawl_def)
    have le: "\<And>msg. round_of st (urlQueue st) (logError msg s3) True"
      using k3 by (simp add: round_of_def logError_fields)
    note defs = crawlUrl_def Let_def s3_def s2_def
    show ?thesis
    proof (cases outcome)
      case (CreateFails msg)
      with True s' t have "crawlUrl P M T u st
        = Inr (logError (''Error creating tab for '' @ u @ '': '' @ msg) s3, True)"
        by (simp add: defs)
      with le show ?thesis by blast
    next
      case LoadTimeout
      with True s' t have "crawlUrl P M T u st
        = Inr (logError (''Timeout waiting for '' @ u @ '' to load'') s3, True)"
        by (simp add: defs)
      with le show ?thesis by blast
    next
      case (ScriptFails tabUrl msg)
      with True s' t have "crawlUrl P M T u st
        = Inr (logError (''Error extracting data from '' @ tabUrl @ '': '' @ msg) s3, True)"
        by (simp add: defs)
      with le show ?thesis by blast
    next
      case StopRequested
      with True s' t have "crawlUrl P M T u st = Inr (stopCrawl s2, False)"
        by (simp add: defs)
      moreover have "round_of st (urlQueue st) (stopCrawl s2) False"
        using k1 by (simp add: round_of_def s2_def stopCrawl_def)
      ultimately show ?thesis by blast
    next
      case (Loaded tabUrl d)
      define pdo where
        "pdo = map_option (\<lambda>x. withScreenshot (config s3) x (extractPageDataScript x)) d"
      define r where "r = processPageData P M tabUrl pdo s3"
      from Loaded True s' t have c': "crawlUrl P M T u st = Inr (r, True)"
        by (simp add: defs r_def pdo_def)
      from processPageData_cases [of s3 P M tabUrl pdo]
      have "round_of st (urlQueue st) r True"
      proof
        assume "keeps_ext s3 (processPageData P M tabUrl pdo s3)"
        then have "keeps_ext s3 r" by (simp add: r_def)
        with k3 show ?thesis by (simp add: keeps_ext_def keeps_def round_of_def)
      next
        assume "pushes_within (s3\<lparr>visitedUrls := insert tabUrl (visitedUrls s3),
                                    pagesVisited := pagesVisited s3 + 1\<rparr>)
                  (processPageData P M tabUrl pdo s3)"
        then have "pushes_within (s3\<lparr>visitedUrls := insert tabUrl (visitedUrls s3),
                                    pagesVisited := pagesVisited s3 + 1\<rparr>) r" by (simp add: r_def)
        with k3 show ?thesis by (simp add: pushes_within_def keeps_def round_of_def)
      qed
      with c' show ?thesis by blast
    qed
  qed
qed

lemma nextUrl_cases:
  assumes "urlQueue st = entry # rest"
  shows "\<exists>st' cont. nextUrl P M T st = Inr (st', cont) \<and> round_of st rest st' cont"
proof -
  from crawlUrl_cases [of P M T "fst entry" "st\<lparr>urlQueue := rest\<rparr>"] obtain st' cont where
    c: "crawlUrl P M T (fst entry) (st\<lparr>urlQueue := rest\<rparr>) = Inr (st', cont)"
       "round_of (st\<lparr>urlQueue := rest\<rparr>) rest st' cont" by auto
  from c(2) have "round_of st rest st' cont" by (simp add: round_of_def)
  with c(1) assms show ?thesis by (simp add: nextUrl_def)
qed

lemma nextUrl_decreases:
  assumes "ext_running st" "nextUrl P M T st = Inr (st', cont)"
  shows "(ext_measure st', ext_measure st) \<in> less_than <*lex*> less_than"
proof -
  from assms(1) obtain entry rest where q: "urlQueue st = entry # rest"
    by (cases "urlQueue st") (auto simp: ext_running_def)
  from assms(1) have lt: "pagesVisited st < maxPages (config st)" by (simp add: ext_running_def)
  from nextUrl_cases [OF q, of P M T] assms(2)
  have "config st' = config st"
    "(urlQueue st' = rest \<and> pagesVisited st' = pagesVisited st)
       \<or> pagesVisited st' = pagesVisited st + 1" by (auto simp: round_of_def)
  with q lt show ?thesis by (auto simp: ext_measure_def)
qed

lemma nextUrlSteps_invariants:
  "nextUrlSteps n P M T st = Inr (st', cont) \<Longrightarrow>
     config st' = config st
     \<and> (pagesVisited st \<le> maxPages (config st) \<longrightarrow> pagesVisited st' \<le> maxPages (config st))
     \<and> ((\<forall>x \<in> set (urlQueue st). snd x \<le> maxDepth (config st)) \<longrightarrow>
          (\<forall>x \<in> set (urlQueue st'). snd x \<le> maxDepth (config st)))"
proof (induction n arbitrary: st)
  case 0
  then show ?case by simp
next
  case (Suc n)
  show ?case
  proof (cases "ext_running st")
    case False
    with Suc.prems show ?thesis by simp
  next
    case True
    then obtain entry rest where q: "urlQueue st = entry # rest"
      by (cases "urlQueue st") (auto simp: ext_running_def)
    from True have lt: "pagesVisited st < maxPages (config st)" by (simp add: ext_running_def)
    from nextUrl_cases [OF q, of P M T] obtain s1 c1 where
      s1: "nextUrl P M T st = Inr (s1, c1)" "config s1 = config st"
      and c: "(urlQueue s1 = rest \<and> pagesVisited s1 = pagesVisited st)
        \<or> (pagesVisited s1 = pagesVisited st + 1
            \<and> (\<exists>ps. urlQueue s1 = rest @ ps
                    \<and> (\<forall>x \<in> set ps. 0 < snd x \<and> snd x \<le> maxDepth (config st))))"
      unfolding round_of_def by blast
    have a: "pagesVisited s1 \<le> maxPages (config st)" using c lt by auto
    have d: "(\<forall>x \<in> set (urlQueue st). snd x \<le> maxDepth (config st)) \<longrightarrow>
          (\<forall>x \<in> set (urlQueue s1). snd x \<le> maxDepth (config st))"
      using c q by fastforce
    show ?thesis
    proof (cases c1)
      case False
      with True s1 Suc.prems have "st' = s1" by simp
      with a d s1(2) show ?thesis by simp
    next
      case c1: True
      with True s1 Suc.prems have "nextUrlSteps n P M T s1 = Inr (st', cont)" by simp
      from Suc.IH [OF this] a d s1(2) show ?thesis by simp
    qed
  qed
qed

lemma processNextUrl_terminates:
  "\<exists>r. processNextUrl P M T st = Some (Inr r) \<and> \<not> crawlInProgress r
        \<and> config r = config st
        \<and> (completeReported r \<or> completeReported r = completeReported st)"
proof (induction st rule: wf_induct_rule
    [OF wf_inv_image [OF wf_lex_prod [OF wf_less_than wf_less_than], of ext_measure]])
  case (1 st)
  show ?case
  proof (cases "ext_running st")
    case False
    then have "processNextUrl P M T st = Some (Inr (finishCrawl st))"
      by (subst processNextUrl.simps) simp
    then show ?thesis by (simp add: finishCrawl_def)
  next
    case True
    then obtain entry rest where q: "urlQueue st = entry # rest"
      by (cases "urlQueue st") (auto simp: ext_running_def)
    from nextUrl_cases [OF q, of P M T] obtain s1 c1 where
      s1: "nextUrl P M T st = Inr (s1, c1)" "config s1 = config st"
          "completeReported s1 = completeReported st" "\<not> c1 \<longrightarrow> \<not> crawlInProgress s1"
      unfolding round_of_def by blast
    show ?thesis
    proof (cases c1)
      case False
      with True s1 have "processNextUrl P M T st = Some (Inr s1)"
        by (subst processNextUrl.simps) simp
      with False s1 show ?thesis by simp
    next
      case c1: True
      from nextUrl_decreases [OF True s1(1)]
      have "(s1, st) \<in> inv_image (less_than <*lex*> less_than) ext_measure" by simp
      from 1 [OF this] obtain r where
        r: "processNextUrl P M T s1 = Some (Inr r)" "\<not> crawlInProgress r" "config r = config s1"
           "completeReported r \<or> completeReported r = completeReported s1" by blast
      from True s1 c1 r(1) have "processNextUrl P M T st = Some (Inr r)"
        by (subst processNextUrl.simps) simp
      with r s1 show ?thesis by auto
    qed
  qed
qed

section \<open>Runs on the sample site\<close>

lemma sample_onePage:
  "map_option (map_sum fst (\<lambda>s. (urlQueue s, pagesVisited s, navigated s, maxPages (config s))))
     (crawlLoop samplePlatform sampleBrowser
        (onePageCrawler\<lparr>urlQueue := [(''http://a.io/'', 0)]\<rparr>))
   = Some (Inr ([(''http://a.io/about'', 1)], 1, [''http://a.io/''], 1))"
  by code_simp

lemma sample_onePage_steps:
  "map_sum fst (\<lambda>s. (urlQueue s, pagesVisited s))
     (crawlSteps 3 samplePlatform sampleBrowser
        (onePageCrawler\<lparr>urlQueue := [(''http://a.io/'', 0)]\<rparr>))
   = Inr ([(''http://a.io/about'', 1)], 1)"
  by code_simp

lemma sample_startCrawl:
  "map_option (map_sum id (\<lambda>s. (navigated s, pagesVisited s, urlQueue s, crawlInProgress s,
                  completeReported s, errors s)))
     (startCrawl samplePlatform sampleMethods sampleTabs depthOneCrawler)
   = Some (Inr ([''http://a.io/'', ''http://a.io/about'', ''http://a.io/about''], 2, [], False, True,
                [''Timeout waiting for http://a.io/about to load'']))"
  by code_simp

lemma sample_startCrawl_undefined:
  "map_option (map_sum id (\<lambda>s. (navigated s, ''http://a.io/'' \<in> visitedUrls s, pagesVisited s,
                  crawlInProgress s, completeReported s)))
     (startCrawl samplePlatform undefinedMethods sampleTabs depthOneCrawler)
   = Some (Inr ([''http://a.io/''], False, 0, False, True))"
  by code_simp

lemma sample_processPageData:
  "(\<lambda>s. (urlQueue s, pagesVisited s))
     (processPageData samplePlatform sampleMethods ''http://a.io/''
        (Some (extractPageDataScript homeDom2)) depthOneCrawler)
   = ([(''http://a.io/about'', 1), (''http://a.io/about'', 1)], 1)"
  by code_simp


lemma finishCrawl_fields:
  "config (finishCrawl s) = config s" "pagesVisited (finishCrawl s) = pagesVisited s"
  "urlQueue (finishCrawl s) = urlQueue s" "\<not> crawlInProgress (finishCrawl s)"
  "completeReported (finishCrawl s)"
  by (simp_all add: finishCrawl_def)

lemma processNextUrl_steps:
  "\<exists>n r cont. nextUrlSteps n P M T st = Inr (r, cont)
      \<and> processNextUrl P M T st = Some (Inr (if cont then finishCrawl r else r))
      \<and> (cont \<longrightarrow> \<not> ext_running r) \<and> (\<not> cont \<longrightarrow> \<not> crawlInProgress r)"
proof (induction st rule: wf_induct_rule
    [OF wf_inv_image [OF wf_lex_prod [OF wf_less_than wf_less_than], of ext_measure]])
  case (1 st)
  show ?case
  proof (cases "ext_running st")
    case False
    then have "processNextUrl P M T st = Some (Inr (finishCrawl st))"
      by (subst processNextUrl.simps) simp
    moreover have "nextUrlSteps 0 P M T st = Inr (st, True)" by simp
    ultimately show ?thesis using False by (intro exI [of _ 0] exI [of _ st] exI [of _ True]) simp
  next
    case True
    then obtain entry rest where q: "urlQueue st = entry # rest"
      by (cases "urlQueue st") (auto simp: ext_running_def)
    from nextUrl_cases [OF q, of P M T] obtain s1 c1 where
      s1: "nextUrl P M T st = Inr (s1, c1)" "\<not> c1 \<longrightarrow> \<not> crawlInProgress s1"
      unfolding round_of_def by blast
    show ?thesis
    proof (cases c1)
      case False
      with True s1 have "processNextUrl P M T st = Some (Inr s1)"
        by (subst processNextUrl.simps) simp
      moreover from True s1 False have "nextUrlSteps (Suc 0) P M T st = Inr (s1, False)" by simp
      ultimately show ?thesis using False s1(2)
        by (intro exI [of _ "Suc 0"] exI [of _ s1] exI [of _ False]) simp
    next
      case c1: True
      from nextUrl_decreases [OF True s1(1)]
      have "(s1, st) \<in> inv_image (less_than <*lex*> less_than) ext_measure" by simp
      from 1 [OF this] obtain n r cont where
        r: "nextUrlSteps n P M T s1 = Inr (r, cont)"
           "processNextUrl P M T s1 = Some (Inr (if cont then finishCrawl r else r))"
           "cont \<longrightarrow> \<not> ext_running r" "\<not> cont \<longrightarrow> \<not> crawlInProgress r" by blast
      from True s1 c1 r(2) have "processNextUrl P M T st = Some (Inr (if cont then finishCrawl r else r))"
        by (subst processNextUrl.simps) simp
      moreover from True s1 c1 r(1) have "nextUrlSteps (Suc n) P M T st = Inr (r, cont)" by simp
      ultimately show ?thesis using r(3,4) by blast
    qed
  qed
qed

section \<open>C3: the page cap\<close>

text \<open>
  C3: in every state a run of either scheduler goes through, \<open>pagesVisited\<close> is at most
  \<open>maxPages\<close>, whatever the queue holds; a scheduler entered with \<open>pagesVisited\<close> at
  \<open>maxPages\<close> takes nothing off the queue; and the state in which the loop of \<open>crawl\<close> ends
  obeys the bound.
\<close>

theorem pagesVisited_bounded:
  "(pagesVisited st \<le> maxPages (config st) \<and> crawlSteps n P B st = Inr st' \<longrightarrow>
      pagesVisited st' \<le> maxPages (config st'))
   \<and> (pagesVisited est \<le> maxPages (config est) \<and> nextUrlSteps n P M T est = Inr (est', cont) \<longrightarrow>
      pagesVisited est' \<le> maxPages (config est'))
   \<and> (maxPages (config st) \<le> pagesVisited st \<longrightarrow> crawlLoop P B st = Some (Inr st))
   \<and> (maxPages (config est) \<le> pagesVisited est \<longrightarrow>
        processNextUrl P M T est = Some (Inr (finishCrawl est)))
   \<and> (\<exists>r. crawlLoop P B st = Some (Inr r)
          \<and> (pagesVisited st \<le> maxPages (config st) \<longrightarrow> pagesVisited r \<le> maxPages (config r)))
   \<and> (\<exists>r. processNextUrl P M T est = Some (Inr r)
          \<and> (pagesVisited est \<le> maxPages (config est) \<longrightarrow> pagesVisited r \<le> maxPages (config r)))"
proof -
  have a: "pagesVisited st \<le> maxPages (config st) \<and> crawlSteps n P B st = Inr st' \<longrightarrow>
      pagesVisited st' \<le> maxPages (config st')"
    using crawlSteps_invariants [of n P B st st'] by auto
  have b: "pagesVisited est \<le> maxPages (config est) \<and> nextUrlSteps n P M T est = Inr (est', cont) \<longrightarrow>
      pagesVisited est' \<le> maxPages (config est')"
    using nextUrlSteps_invariants [of n P M T est est' cont] by auto
  have c: "maxPages (config st) \<le> pagesVisited st \<longrightarrow> crawlLoop P B st = Some (Inr st)"
    by (subst crawlLoop.simps) (simp add: running_def)
  have d: "maxPages (config est) \<le> pagesVisited est \<longrightarrow>
        processNextUrl P M T est = Some (Inr (finishCrawl est))"
    by (subst processNextUrl.simps) (simp add: ext_running_def)
  from crawlLoop_terminates [of P B st] obtain k r where
    r: "crawlLoop P B st = Some (Inr r)" "crawlSteps k P B st = Inr r" by blast
  from crawlSteps_invariants [OF r(2)] r(1)
  have e: "\<exists>r. crawlLoop P B st = Some (Inr r)
          \<and> (pagesVisited st \<le> maxPages (config st) \<longrightarrow> pagesVisited r \<le> maxPages (config r))"
    by auto
  from processNextUrl_steps [of P M T est] obtain k' r' c' where
    r': "nextUrlSteps k' P M T est = Inr (r', c')"
        "processNextUrl P M T est = Some (Inr (if c' then finishCrawl r' else r'))" by blast
  from nextUrlSteps_invariants [OF r'(1)]
  have "pagesVisited est \<le> maxPages (config est) \<longrightarrow>
          pagesVisited (if c' then finishCrawl r' else r') \<le> maxPages (config (if c' then finishCrawl r' else r'))"
    by (simp add: finishCrawl_fields)
  with r'(2) have f: "\<exists>r. processNextUrl P M T est = Some (Inr r)
          \<and> (pagesVisited est \<le> maxPages (config est) \<longrightarrow> pagesVisited r \<le> maxPages (config r))"
    by blast
  from a b c d e f show ?thesis by blast
qed

theorem pagesVisited_bounded_witness:
  "pagesVisited (onePageCrawler\<lparr>urlQueue := [(''http://a.io/'', 0)]\<rparr>)
     \<le> maxPages (config (onePageCrawler\<lparr>urlQueue := [(''http://a.io/'', 0)]\<rparr>))
   \<and> (\<exists>st'. crawlSteps 3 samplePlatform sampleBrowser
               (onePageCrawler\<lparr>urlQueue := [(''http://a.io/'', 0)]\<rparr>) = Inr st'
         \<and> urlQueue st' = [(''http://a.io/about'', 1)]
         \<and> pagesVisited st' \<le> maxPages (config st'))"
proof -
  let ?c = "onePageCrawler\<lparr>urlQueue := [(''http://a.io/'', 0)]\<rparr>"
  have p: "pagesVisited ?c \<le> maxPages (config ?c)"
    by (simp add: onePageCrawler_def sampleCrawler_def)
  obtain x where x: "crawlSteps 3 samplePlatform sampleBrowser ?c = x" by blast
  with sample_onePage_steps obtain st' where st': "x = Inr st'"
    "urlQueue st' = [(''http://a.io/about'', 1)]"
    by (cases x) auto
  from pagesVisited_bounded [where st = ?c and n = 3 and P = samplePlatform and B = sampleBrowser
      and st' = st'] p x st'(1)
  have "pagesVisited st' \<le> maxPages (config st')" by blast
  with p x st' show ?thesis by blast
qed

section \<open>C1: the depth limit\<close>

text \<open>
  C1, as the code has it. \<open>processPageData\<close> of the extension pushes a discovered link only
  when the depth it finds for the current page is below \<open>maxDepth\<close>, so every entry it pushes
  has a depth of at most \<open>maxDepth\<close>. \<open>crawlPage\<close> of \<open>SiteCrawler\<close> pushes every link that
  passes \<open>shouldCrawl\<close> at \<open>depth + 1\<close> without looking at \<open>maxDepth\<close>; it enforces the limit
  when the entry comes off the queue: called with a depth above \<open>maxDepth\<close> it returns without
  loading the page and without pushing anything.
\<close>

theorem enqueue_within_depth:
  "(\<exists>ps. urlQueue (processPageData P M u pageData est) = urlQueue est @ ps
         \<and> (\<forall>x \<in> set ps. snd x \<le> maxDepth (config est)))
   \<and> (\<exists>st' ps. crawlPage P B u depth st = Inr st' \<and> urlQueue st' = urlQueue st @ ps
         \<and> (\<forall>x \<in> set ps. snd x = depth + 1)
         \<and> (maxDepth (config st) < depth \<longrightarrow> ps = [] \<and> navigated st' = navigated st))"
proof -
  from processPageData_cases [of est P M u pageData]
  have a: "\<exists>ps. urlQueue (processPageData P M u pageData est) = urlQueue est @ ps
         \<and> (\<forall>x \<in> set ps. snd x \<le> maxDepth (config est))"
  proof
    assume "keeps_ext est (processPageData P M u pageData est)"
    then have "urlQueue (processPageData P M u pageData est) = urlQueue est @ []"
      by (simp add: keeps_ext_def)
    then show ?thesis by (intro exI [of _ "[]"]) simp
  next
    assume "pushes_within (est\<lparr>visitedUrls := insert u (visitedUrls est),
                               pagesVisited := pagesVisited est + 1\<rparr>)
              (processPageData P M u pageData est)"
    then show ?thesis by (auto simp: pushes_within_def)
  qed
  from crawlPage_cases [of P B u depth st] obtain st' where
    s: "crawlPage P B u depth st = Inr st'"
    and c: "(urlQueue st' = urlQueue st \<and> navigated st' = navigated st)
        \<or> (depth \<le> maxDepth (config st)
            \<and> (\<exists>ps. urlQueue st' = urlQueue st @ ps \<and> (\<forall>x \<in> set ps. snd x = depth + 1)))"
    by blast
  from c have "\<exists>ps. urlQueue st' = urlQueue st @ ps \<and> (\<forall>x \<in> set ps. snd x = depth + 1)
         \<and> (maxDepth (config st) < depth \<longrightarrow> ps = [] \<and> navigated st' = navigated st)"
  proof
    assume "urlQueue st' = urlQueue st \<and> navigated st' = navigated st"
    then show ?thesis by (intro exI [of _ "[]"]) simp
  next
    assume "depth \<le> maxDepth (config st)
            \<and> (\<exists>ps. urlQueue st' = urlQueue st @ ps \<and> (\<forall>x \<in> set ps. snd x = depth + 1))"
    then show ?thesis by auto
  qed
  with s a show ?thesis by blast
qed

theorem enqueue_within_depth_witness:
  "\<exists>st'. crawlPage samplePlatform sampleBrowser ''http://a.io/'' 0 sampleCrawler = Inr st'
      \<and> urlQueue st' = [(''http://a.io/about'', 1)]
      \<and> (\<forall>x \<in> set (urlQueue st'). snd x = 0 + 1)"
proof -
  from enqueue_within_depth [where P = samplePlatform and B = sampleBrowser
      and u = "''http://a.io/''" and depth = 0 and st = sampleCrawler]
  obtain st' ps where s: "crawlPage samplePlatform sampleBrowser ''http://a.io/'' 0 sampleCrawler = Inr st'"
    "urlQueue st' = urlQueue sampleCrawler @ ps" "\<forall>x \<in> set ps. snd x = 0 + 1" by blast
  from s(2) have q: "urlQueue st' = ps" by (simp add: sampleCrawler_def)
  from sample_crawlPage s(1) have "urlQueue st' = [(''http://a.io/about'', 1)]" by simp
  with s q show ?thesis by auto
qed

text \<open>
  The claim as stated fails for \<open>SiteCrawler\<close>: with \<open>maxDepth = 0\<close> the start page is
  processed at depth 0 and its link is pushed at depth 1.
\<close>

theorem enqueue_beyond_maxDepth_counterexample:
  "maxDepth (config sampleCrawler) = 0
   \<and> map_sum fst urlQueue (crawlPage samplePlatform sampleBrowser ''http://a.io/'' 0 sampleCrawler)
       = Inr [(''http://a.io/about'', 1)]"
  by code_simp

section \<open>C2: termination\<close>

lemma crawl_setup_fails:
  assumes "createOutputDirs H (config st) = Some e
           \<or> (createOutputDirs H (config st) = None \<and> launch H = Some msg \<and> e = Error msg)"
  shows "\<exists>st' e'. crawl H P B st = Some (st', Inl e')
           \<and> st' = st\<lparr>errors := errors st @ [''Error during crawl: '' @ message e]\<rparr>
           \<and> (\<not> browserSet st \<or> closeInHandler H = None \<longrightarrow> e' = e)"
proof -
  from assms have "crawl_try H P B st = Some (st, Inl e)"
    by (auto simp: crawl_try_def)
  then show ?thesis
    by (cases "closeInHandler H") (simp_all add: crawl_def Let_def)
qed

lemma crawl_after_loop:
  assumes "createOutputDirs H (config st) = None" "launch H = None"
    "crawlLoop P B (st\<lparr>browserSet := True, urlQueue := urlQueue st @ [(startUrl st, 0)]\<rparr>)
       = Some (Inr s)"
  shows "((exportGraph_flag (config s) \<longrightarrow> writeFile H = None) \<and> closeBrowser H = None \<longrightarrow>
            crawl H P B st =
              Some (s, Inr \<lparr>graphNodes = nodes s, graphProto = nodesProto s, graphEdges = edges s,
                            statsPagesVisited = pagesVisited s, statsLinksFound = linksFound s,
                            statsErrors = errors s\<rparr>))
     \<and> (\<forall>msg. exportGraph_flag (config s) \<and> writeFile H = Some msg \<longrightarrow>
            (\<exists>st' e'. crawl H P B st = Some (st', Inl e')
               \<and> st' = s\<lparr>errors := errors s @ [''Error exporting graph: '' @ msg,
                                                 ''Error during crawl: '' @ msg]\<rparr>
               \<and> (closeInHandler H = None \<longrightarrow> e' = Error msg)))
     \<and> (\<forall>msg. (exportGraph_flag (config s) \<longrightarrow> writeFile H = None) \<and> closeBrowser H = Some msg \<longrightarrow>
            (\<exists>st' e'. crawl H P B st = Some (st', Inl e')
               \<and> st' = s\<lparr>errors := errors s @ [''Error during crawl: '' @ msg]\<rparr>
               \<and> (closeInHandler H = None \<longrightarrow> e' = Error msg)))"
proof (intro conjI allI impI)
  assume "(exportGraph_flag (config s) \<longrightarrow> writeFile H = None) \<and> closeBrowser H = None"
  with assms have "crawl_try H P B st = Some (s, Inr (resultOf s))"
    by (auto simp: crawl_try_def exportGraph_def)
  then show "crawl H P B st =
              Some (s, Inr \<lparr>graphNodes = nodes s, graphProto = nodesProto s, graphEdges = edges s,
                            statsPagesVisited = pagesVisited s, statsLinksFound = linksFound s,
                            statsErrors = errors s\<rparr>)"
    by (simp add: crawl_def resultOf_def)
next
  fix msg
  assume "exportGraph_flag (config s) \<and> writeFile H = Some msg"
  with assms have "crawl_try H P B st
      = Some (s\<lparr>errors := errors s @ [''Error exporting graph: '' @ msg]\<rparr>, Inl (Error msg))"
    by (simp add: crawl_try_def exportGraph_def)
  then show "\<exists>st' e'. crawl H P B st = Some (st', Inl e')
               \<and> st' = s\<lparr>errors := errors s @ [''Error exporting graph: '' @ msg,
                                                 ''Error during crawl: '' @ msg]\<rparr>
               \<and> (closeInHandler H = None \<longrightarrow> e' = Error msg)"
    by (cases "closeInHandler H") (simp_all add: crawl_def Let_def)
next
  fix msg
  assume "(exportGraph_flag (config s) \<longrightarrow> writeFile H = None) \<and> closeBrowser H = Some msg"
  with assms have "crawl_try H P B st = Some (s, Inl (Error msg))"
    by (auto simp: crawl_try_def exportGraph_def)
  then show "\<exists>st' e'. crawl H P B st = Some (st', Inl e')
               \<and> st' = s\<lparr>errors := errors s @ [''Error during crawl: '' @ msg]\<rparr>
               \<and> (closeInHandler H = None \<longrightarrow> e' = Error msg)"
    by (cases "closeInHandler H") (simp_all add: crawl_def Let_def)
qed

lemma finishCrawl_saves:
  "savedGraph (finishCrawl r) =
     Some \<lparr>savedNodes = nodes r, savedEdges = edges r, savedPagesVisited = pagesVisited r,
           savedLinksFound = linksFound r, savedElementsFound = elementsFound r,
           savedErrors = errors r, savedEdgeCount = length (edges r), savedConfig = config r\<rparr>"
  "nodes (finishCrawl r) = nodes r" "edges (finishCrawl r) = edges r"
  "errors (finishCrawl r) = errors r"
  by (simp_all add: finishCrawl_def saveGraph_def)

text \<open>
  C2, as the code has it. Every run ends. \<open>crawl\<close> of \<open>SiteCrawler\<close> ends at once, by
  throwing, when creating the output directories or launching the browser fails. Otherwise
  its loop, started on the queue with the start URL added, ends after finitely many rounds in
  a state in which the queue is empty or the page cap is met; if then the export (when
  configured) and the closing of the browser succeed, \<open>crawl\<close> returns the graph and the
  statistics of that state, the error list among them; if one of them fails, \<open>crawl\<close> logs
  the error, and throws it instead of returning (the graph and the error list stay on the
  crawler). \<open>startCrawl\<close> of the extension ends after finitely many rounds in a state in
  which the crawl is no longer in progress: either the queue is exhausted, the page cap is met
  or the crawl was stopped, and \<open>finishCrawl\<close> has handed the graph, the statistics and the
  error list to the storage; or \<open>stopCrawl\<close> has ended the chain of callbacks.
\<close>

theorem crawl_terminates:
  "(\<exists>st' out. crawl H P B st = Some (st', out))
   \<and> (\<forall>e. createOutputDirs H (config st) = Some e
            \<or> (createOutputDirs H (config st) = None \<and> (\<exists>msg. launch H = Some msg \<and> e = Error msg)) \<longrightarrow>
         (\<exists>e'. crawl H P B st
                 = Some (st\<lparr>errors := errors st @ [''Error during crawl: '' @ message e]\<rparr>, Inl e')
              \<and> (\<not> browserSet st \<or> closeInHandler H = None \<longrightarrow> e' = e)))
   \<and> (createOutputDirs H (config st) = None \<and> launch H = None \<longrightarrow>
        (\<exists>n s. crawlSteps n P B (st\<lparr>browserSet := True, urlQueue := urlQueue st @ [(startUrl st, 0)]\<rparr>)
                 = Inr s
           \<and> (urlQueue s = [] \<or> maxPages (config s) \<le> pagesVisited s)
           \<and> ((exportGraph_flag (config s) \<longrightarrow> writeFile H = None) \<and> closeBrowser H = None \<longrightarrow>
                 crawl H P B st =
                   Some (s, Inr \<lparr>graphNodes = nodes s, graphProto = nodesProto s, graphEdges = edges s,
                                 statsPagesVisited = pagesVisited s, statsLinksFound = linksFound s,
                                 statsErrors = errors s\<rparr>))
           \<and> (\<forall>msg. exportGraph_flag (config s) \<and> writeFile H = Some msg \<longrightarrow>
                 (\<exists>e'. crawl H P B st
                         = Some (s\<lparr>errors := errors s @ [''Error exporting graph: '' @ msg,
                                                           ''Error during crawl: '' @ msg]\<rparr>, Inl e')
                      \<and> (closeInHandler H = None \<longrightarrow> e' = Error msg)))
           \<and> (\<forall>msg. (exportGraph_flag (config s) \<longrightarrow> writeFile H = None)
                     \<and> closeBrowser H = Some msg \<longrightarrow>
                 (\<exists>e'. crawl H P B st
                         = Some (s\<lparr>errors := errors s @ [''Error during crawl: '' @ msg]\<rparr>, Inl e')
                      \<and> (closeInHandler H = None \<longrightarrow> e' = Error msg)))))
   \<and> (\<not> crawlInProgress est \<longrightarrow>
        (\<exists>n r cont. nextUrlSteps n P M T (est\<lparr>crawlInProgress := True, urlQueue := [(startUrl est, 0)]\<rparr>)
                      = Inr (r, cont)
           \<and> startCrawl P M T est = Some (Inr (if cont then finishCrawl r else r))
           \<and> \<not> crawlInProgress (if cont then finishCrawl r else r)
           \<and> (cont \<longrightarrow>
                (urlQueue r = [] \<or> maxPages (config r) \<le> pagesVisited r \<or> \<not> crawlInProgress r)
                \<and> completeReported (finishCrawl r)
                \<and> savedGraph (finishCrawl r) =
                    Some \<lparr>savedNodes = nodes r, savedEdges = edges r,
                          savedPagesVisited = pagesVisited r, savedLinksFound = linksFound r,
                          savedElementsFound = elementsFound r, savedErrors = errors r,
                          savedEdgeCount = length (edges r), savedConfig = config r\<rparr>
                \<and> nodes (finishCrawl r) = nodes r \<and> edges (finishCrawl r) = edges r
                \<and> errors (finishCrawl r) = errors r)
           \<and> (\<not> cont \<longrightarrow> \<not> crawlInProgress r)))"
proof -
  let ?s = "st\<lparr>browserSet := True, urlQueue := urlQueue st @ [(startUrl st, 0)]\<rparr>"
  from crawlLoop_terminates [of P B ?s] obtain n s where
    s: "crawlLoop P B ?s = Some (Inr s)" "crawlSteps n P B ?s = Inr s" "\<not> running s" by blast
  from s(3) have t: "urlQueue s = [] \<or> maxPages (config s) \<le> pagesVisited s"
    by (auto simp: running_def)
  have b: "\<forall>e. createOutputDirs H (config st) = Some e
            \<or> (createOutputDirs H (config st) = None \<and> (\<exists>msg. launch H = Some msg \<and> e = Error msg)) \<longrightarrow>
         (\<exists>e'. crawl H P B st
                 = Some (st\<lparr>errors := errors st @ [''Error during crawl: '' @ message e]\<rparr>, Inl e')
              \<and> (\<not> browserSet st \<or> closeInHandler H = None \<longrightarrow> e' = e))"
  proof (intro allI impI)
    fix e
    assume "createOutputDirs H (config st) = Some e
            \<or> (createOutputDirs H (config st) = None \<and> (\<exists>msg. launch H = Some msg \<and> e = Error msg))"
    then obtain msg where "createOutputDirs H (config st) = Some e
           \<or> (createOutputDirs H (config st) = None \<and> launch H = Some msg \<and> e = Error msg)"
      by blast
    from crawl_setup_fails [OF this, of P B]
    show "\<exists>e'. crawl H P B st
                 = Some (st\<lparr>errors := errors st @ [''Error during crawl: '' @ message e]\<rparr>, Inl e')
              \<and> (\<not> browserSet st \<or> closeInHandler H = None \<longrightarrow> e' = e)"
      by auto
  qed
  have c: "createOutputDirs H (config st) = None \<and> launch H = None \<longrightarrow>
        (\<exists>n s. crawlSteps n P B ?s = Inr s
           \<and> (urlQueue s = [] \<or> maxPages (config s) \<le> pagesVisited s)
           \<and> ((exportGraph_flag (config s) \<longrightarrow> writeFile H = None) \<and> closeBrowser H = None \<longrightarrow>
                 crawl H P B st =
                   Some (s, Inr \<lparr>graphNodes = nodes s, graphProto = nodesProto s, graphEdges = edges s,
                                 statsPagesVisited = pagesVisited s, statsLinksFound = linksFound s,
                                 statsErrors = errors s\<rparr>))
           \<and> (\<forall>msg. exportGraph_flag (config s) \<and> writeFile H = Some msg \<longrightarrow>
                 (\<exists>e'. crawl H P B st
                         = Some (s\<lparr>errors := errors s @ [''Error exporting graph: '' @ msg,
                                                           ''Error during crawl: '' @ msg]\<rparr>, Inl e')
                      \<and> (closeInHandler H = None \<longrightarrow> e' = Error msg)))
           \<and> (\<forall>msg. (exportGraph_flag (config s) \<longrightarrow> writeFile H = None)
                     \<and> closeBrowser H = Some msg \<longrightarrow>
                 (\<exists>e'. crawl H P B st
                         = Some (s\<lparr>errors := errors s @ [''Error during crawl: '' @ msg]\<rparr>, Inl e')
                      \<and> (closeInHandler H = None \<longrightarrow> e' = Error msg))))"
  proof
    assume h: "createOutputDirs H (config st) = None \<and> launch H = None"
    then have h1: "createOutputDirs H (config st) = None" and h2: "launch H = None" by simp_all
    note al = crawl_after_loop [OF h1 h2 s(1)]
    from al have x: "(exportGraph_flag (config s) \<longrightarrow> writeFile H = None) \<and> closeBrowser H = None \<longrightarrow>
                 crawl H P B st =
                   Some (s, Inr \<lparr>graphNodes = nodes s, graphProto = nodesProto s, graphEdges = edges s,
                                 statsPagesVisited = pagesVisited s, statsLinksFound = linksFound s,
                                 statsErrors = errors s\<rparr>)"
      by blast
    from al have y: "\<forall>msg. exportGraph_flag (config s) \<and> writeFile H = Some msg \<longrightarrow>
                 (\<exists>e'. crawl H P B st
                         = Some (s\<lparr>errors := errors s @ [''Error exporting graph: '' @ msg,
                                                           ''Error during crawl: '' @ msg]\<rparr>, Inl e')
                      \<and> (closeInHandler H = None \<longrightarrow> e' = Error msg))"
      by blast
    from al have z: "\<forall>msg. (exportGraph_flag (config s) \<longrightarrow> writeFile H = None)
                     \<and> closeBrowser H = Some msg \<longrightarrow>
                 (\<exists>e'. crawl H P B st
                         = Some (s\<lparr>errors := errors s @ [''Error during crawl: '' @ msg]\<rparr>, Inl e')
                      \<and> (closeInHandler H = None \<longrightarrow> e' = Error msg))"
      by blast
    from s(2) t x y z show "\<exists>n s. crawlSteps n P B ?s = Inr s
           \<and> (urlQueue s = [] \<or> maxPages (config s) \<le> pagesVisited s)
           \<and> ((exportGraph_flag (config s) \<longrightarrow> writeFile H = None) \<and> closeBrowser H = None \<longrightarrow>
                 crawl H P B st =
                   Some (s, Inr \<lparr>graphNodes = nodes s, graphProto = nodesProto s, graphEdges = edges s,
                                 statsPagesVisited = pagesVisited s, statsLinksFound = linksFound s,
                                 statsErrors = errors s\<rparr>))
           \<and> (\<forall>msg. exportGraph_flag (config s) \<and> writeFile H = Some msg \<longrightarrow>
                 (\<exists>e'. crawl H P B st
                         = Some (s\<lparr>errors := errors s @ [''Error exporting graph: '' @ msg,
                                                           ''Error during crawl: '' @ msg]\<rparr>, Inl e')
                      \<and> (closeInHandler H = None \<longrightarrow> e' = Error msg)))
           \<and> (\<forall>msg. (exportGraph_flag (config s) \<longrightarrow> writeFile H = None)
                     \<and> closeBrowser H = Some msg \<longrightarrow>
                 (\<exists>e'. crawl H P B st
                         = Some (s\<lparr>errors := errors s @ [''Error during crawl: '' @ msg]\<rparr>, Inl e')
                      \<and> (closeInHandler H = None \<longrightarrow> e' = Error msg)))"
      by blast
  qed
  have a: "\<exists>st' out. crawl H P B st = Some (st', out)"
  proof (cases "createOutputDirs H (config st)")
    case (Some e)
    with b show ?thesis by blast
  next
    case None
    note co = this
    show ?thesis
    proof (cases "launch H")
      case (Some msg)
      with co b show ?thesis by blast
    next
      case None
      note al = crawl_after_loop [OF co None s(1)]
      show ?thesis
      proof (cases "exportGraph_flag (config s) \<and> writeFile H \<noteq> None")
        case True
        then obtain msg where "exportGraph_flag (config s) \<and> writeFile H = Some msg" by auto
        with al show ?thesis by blast
      next
        case False
        then have f: "exportGraph_flag (config s) \<longrightarrow> writeFile H = None" by simp
        show ?thesis
        proof (cases "closeBrowser H")
          case None
          with f al show ?thesis by blast
        next
          case (Some msg)
          with f al show ?thesis by blast
        qed
      qed
    qed
  qed
  let ?e = "est\<lparr>crawlInProgress := True, urlQueue := [(startUrl est, 0)]\<rparr>"
  from processNextUrl_steps [of P M T ?e] obtain k r' c' where
    r': "nextUrlSteps k P M T ?e = Inr (r', c')"
        "processNextUrl P M T ?e = Some (Inr (if c' then finishCrawl r' else r'))"
        "c' \<longrightarrow> \<not> ext_running r'" "\<not> c' \<longrightarrow> \<not> crawlInProgress r'" by blast
  have d: "\<not> crawlInProgress est \<longrightarrow>
        (\<exists>n r cont. nextUrlSteps n P M T ?e = Inr (r, cont)
           \<and> startCrawl P M T est = Some (Inr (if cont then finishCrawl r else r))
           \<and> \<not> crawlInProgress (if cont then finishCrawl r else r)
           \<and> (cont \<longrightarrow>
                (urlQueue r = [] \<or> maxPages (config r) \<le> pagesVisited r \<or> \<not> crawlInProgress r)
                \<and> completeReported (finishCrawl r)
                \<and> savedGraph (finishCrawl r) =
                    Some \<lparr>savedNodes = nodes r, savedEdges = edges r,
                          savedPagesVisited = pagesVisited r, savedLinksFound = linksFound r,
                          savedElementsFound = elementsFound r, savedErrors = errors r,
                          savedEdgeCount = length (edges r), savedConfig = config r\<rparr>
                \<and> nodes (finishCrawl r) = nodes r \<and> edges (finishCrawl r) = edges r
                \<and> errors (finishCrawl r) = errors r)
           \<and> (\<not> cont \<longrightarrow> \<not> crawlInProgress r))"
  proof
    assume "\<not> crawlInProgress est"
    with r'(2) have 1: "startCrawl P M T est = Some (Inr (if c' then finishCrawl r' else r'))"
      by (simp add: startCrawl_def)
    from r'(4) have 2: "\<not> crawlInProgress (if c' then finishCrawl r' else r')"
      by (simp add: finishCrawl_fields)
    from r'(3) have 3: "c' \<longrightarrow>
        (urlQueue r' = [] \<or> maxPages (config r') \<le> pagesVisited r' \<or> \<not> crawlInProgress r')"
      by (auto simp: ext_running_def)
    have 4: "completeReported (finishCrawl r')" by (simp add: finishCrawl_fields)
    note 5 = finishCrawl_saves [of r']
    from r'(1) 1 2 3 4 5 r'(4)
    show "\<exists>n r cont. nextUrlSteps n P M T ?e = Inr (r, cont)
           \<and> startCrawl P M T est = Some (Inr (if cont then finishCrawl r else r))
           \<and> \<not> crawlInProgress (if cont then finishCrawl r else r)
           \<and> (cont \<longrightarrow>
                (urlQueue r = [] \<or> maxPages (config r) \<le> pagesVisited r \<or> \<not> crawlInProgress r)
                \<and> completeReported (finishCrawl r)
                \<and> savedGraph (finishCrawl r) =
                    Some \<lparr>savedNodes = nodes r, savedEdges = edges r,
                          savedPagesVisited = pagesVisited r, savedLinksFound = linksFound r,
                          savedElementsFound = elementsFound r, savedErrors = errors r,
                          savedEdgeCount = length (edges r), savedConfig = config r\<rparr>
                \<and> nodes (finishCrawl r) = nodes r \<and> edges (finishCrawl r) = edges r
                \<and> errors (finishCrawl r) = errors r)
           \<and> (\<not> cont \<longrightarrow> \<not> crawlInProgress r)"
      by (intro exI [of _ k] exI [of _ r'] exI [of _ c']) simp
  qed
  from a b c d show ?thesis by blast
qed

lemma sample_crawl_state:
  "map_option (\<lambda>x. (urlQueue (fst x), pagesVisited (fst x), errors (fst x),
                     map_sum message (\<lambda>r. (statsPagesVisited r, statsErrors r, length (graphEdges r)))
                       (snd x)))
     (crawl sampleHost samplePlatform sampleBrowser sampleCrawler)
   = Some ([], 1, [], Inr (1, [], 1))"
  by code_simp

lemma sample_startCrawl_saved:
  "map_option (map_sum id (\<lambda>s. map_option (\<lambda>g. (savedPagesVisited g, savedErrors g, savedEdgeCount g))
                                  (savedGraph s)))
     (startCrawl samplePlatform sampleMethods sampleTabs depthOneCrawler)
   = Some (Inr (Some (2, [''Timeout waiting for http://a.io/about to load''], 3)))"
  by code_simp

theorem crawl_terminates_witness:
  "createOutputDirs sampleHost (config sampleCrawler) = None \<and> launch sampleHost = None
   \<and> writeFile sampleHost = None \<and> closeBrowser sampleHost = None
   \<and> (\<exists>s r. crawl sampleHost samplePlatform sampleBrowser sampleCrawler = Some (s, Inr r)
          \<and> urlQueue s = [] \<and> graphNodes r = nodes s \<and> graphEdges r = edges s
          \<and> statsErrors r = errors s \<and> statsPagesVisited r = 1)
   \<and> \<not> crawlInProgress depthOneCrawler
   \<and> (\<exists>r. startCrawl samplePlatform sampleMethods sampleTabs depthOneCrawler = Some (Inr r)
          \<and> \<not> crawlInProgress r \<and> completeReported r \<and> pagesVisited r = 2
          \<and> map_option savedErrors (savedGraph r) = Some (errors r))"
proof -
  have h: "createOutputDirs sampleHost (config sampleCrawler) = None" "launch sampleHost = None"
    "writeFile sampleHost = None" "closeBrowser sampleHost = None"
    by (simp_all add: createOutputDirs_def sampleHost_def)
  have p: "\<not> crawlInProgress depthOneCrawler"
    by (simp add: depthOneCrawler_def sampleExtCrawler_def)
  note t = crawl_terminates [where H = sampleHost and P = samplePlatform and B = sampleBrowser
      and st = sampleCrawler and est = depthOneCrawler and M = sampleMethods and T = sampleTabs]
  from t h obtain n s where
    s: "crawl sampleHost samplePlatform sampleBrowser sampleCrawler =
          Some (s, Inr \<lparr>graphNodes = nodes s, graphProto = nodesProto s, graphEdges = edges s,
                        statsPagesVisited = pagesVisited s, statsLinksFound = linksFound s,
                        statsErrors = errors s\<rparr>)"
    by blast
  with sample_crawl_state have q: "urlQueue s = []" "pagesVisited s = 1" by simp_all
  from s q have a: "\<exists>s r. crawl sampleHost samplePlatform sampleBrowser sampleCrawler = Some (s, Inr r)
          \<and> urlQueue s = [] \<and> graphNodes r = nodes s \<and> graphEdges r = edges s
          \<and> statsErrors r = errors s \<and> statsPagesVisited r = 1"
    by simp
  from t p obtain f where
    r: "startCrawl samplePlatform sampleMethods sampleTabs depthOneCrawler = Some (Inr f)"
       "\<not> crawlInProgress f"
    by blast
  from sample_startCrawl r(1) have c: "completeReported f" "pagesVisited f = 2"
    "errors f = [''Timeout waiting for http://a.io/about to load'']" by simp_all
  from sample_startCrawl_saved r(1)
  have "map_option savedErrors (savedGraph f)
        = Some [''Timeout waiting for http://a.io/about to load'']"
    by (cases "savedGraph f") auto
  with c have "map_option savedErrors (savedGraph f) = Some (errors f)" by simp
  with r c p a h show ?thesis by blast
qed

text \<open>
  The claim as stated fails for \<open>SiteCrawler\<close> on a host where the export cannot be written:
  the loop ends, and \<open>crawl\<close> throws instead of returning the graph and the error list.
\<close>

theorem crawl_throws_counterexample:
  "map_option (\<lambda>x. (map_sum message (\<lambda>r. statsErrors r) (snd x), pagesVisited (fst x),
                     urlQueue (fst x), errors (fst x)))
     (crawl readOnlyHost samplePlatform sampleBrowser sampleCrawler)
   = Some (Inl ''EACCES: permission denied, open ./output/site-graph.json'', 1, [],
           [''Error exporting graph: EACCES: permission denied, open ./output/site-graph.json'',
            ''Error during crawl: EACCES: permission denied, open ./output/site-graph.json''])"
  by code_simp

section \<open>C4: marking a URL visited\<close>

lemma siteCrawler_navigates_once:
  "distinct (navigated st) \<and> set (navigated st) \<subseteq> visitedUrls st \<and> crawlSteps n P B st = Inr st' \<longrightarrow>
     distinct (navigated st') \<and> set (navigated st') \<subseteq> visitedUrls st'"
  using crawlSteps_invariants [of n P B st st'] by blast

text \<open>
  C4 holds for \<open>SiteCrawler\<close> (the lemma above: every URL handed to the browser is in the
  visited set, and none is handed over twice) and fails for \<open>SiteCrawlerExtension\<close>, which
  marks the URL of the loaded tab in \<open>processPageData\<close>, after extraction. With the class as
  it stands, the start URL is loaded and never marked. With the two helper methods defined
  and a start page that links to \<open>/about\<close> twice, a first load of \<open>/about\<close> that times out
  is followed by a second load of the same URL.
\<close>

theorem extension_marks_after_extraction:
  "map_option (map_sum id (\<lambda>s. (navigated s, ''http://a.io/'' \<in> visitedUrls s)))
     (startCrawl samplePlatform undefinedMethods sampleTabs depthOneCrawler)
     = Some (Inr ([''http://a.io/''], False))
   \<and> map_option (map_sum id navigated)
       (startCrawl samplePlatform sampleMethods sampleTabs depthOneCrawler)
     = Some (Inr [''http://a.io/'', ''http://a.io/about'', ''http://a.io/about''])"
proof -
  obtain x where x: "startCrawl samplePlatform undefinedMethods sampleTabs depthOneCrawler = x" by blast
  with sample_startCrawl_undefined
  have a: "map_option (map_sum id (\<lambda>s. (navigated s, ''http://a.io/'' \<in> visitedUrls s))) x
     = Some (Inr ([''http://a.io/''], False))"
    by (cases x; cases "the x") auto
  obtain y where y: "startCrawl samplePlatform sampleMethods sampleTabs depthOneCrawler = y" by blast
  with sample_startCrawl
  have b: "map_option (map_sum id navigated) y
     = Some (Inr [''http://a.io/'', ''http://a.io/about'', ''http://a.io/about''])"
    by (cases y; cases "the y") auto
  from a b x y show ?thesis by simp
qed

end
